theory Spec2Isabelle
  imports Main
begin

section \<open>Data model\<close>

text \<open>
  The dataset of \<^verbatim>\<open>s3iterable_dataset.py\<close> is a thin adapter: it stores a region, a
  selection callable and a transform, creates its client on first use, and iterates by
  mapping \<^verbatim>\<open>_get_transformed_object\<close> over the selected objects.

  \<^verbatim>\<open>S3BucketKey\<close> is a named pair of bucket and key.  An \<^verbatim>\<open>S3Client\<close> object is
  represented by its identity (the number of clients created before it) and the region
  it was created for, so that two client objects are equal exactly when they are the same
  object.
\<close>

datatype S3BucketKey = S3BucketKey (bucket: string) (key: string)

datatype S3Client = S3Client (handle: nat) (client_region: string)

text \<open>
  Exceptions are values.  The source raises none itself: whatever the selection callable,
  the client or the transform raises passes through it.  The constructors are the error
  names of the specification plus \<open>UserError\<close> for an exception of a user callable.
\<close>

datatype exn =
    InvalidSpecification
  | StoreUnavailable
  | NotFound
  | AccessDenied
  | TransientFetchError
  | ObjectFetchFailed S3BucketKey exn
  | TransformFailed S3BucketKey exn
  | UserError string

text \<open>
  A transform returns \<^verbatim>\<open>Any\<close>: the fetched object itself, or some other value.
\<close>

datatype ('r, 'a) item = Object 'r | Value 'a

text \<open>
  The argument \<^verbatim>\<open>object_uris: Union[str, Iterable[str]]\<close> of \<^verbatim>\<open>from_objects\<close>: one
  URI, a collection that can be iterated any number of times, or a one-shot iterator
  (a generator).  \<^verbatim>\<open>from_objects\<close> keeps a reference to the argument, so an iterator
  is an object with an identity and a state: \<open>Iter a uris\<close> is the iterator at address
  \<open>a\<close>, which yields \<open>uris\<close> the first time it is iterated and nothing afterwards.
\<close>

datatype object_uris = Str string | Seq "string list" | Iter nat "string list"

text \<open>How a traversal ends: the end-of-sequence signal, or an exception.\<close>

datatype outcome = Exhausted | Raised exn

text \<open>
  The calls that leave the dataset are recorded in a trace, in the order they happen:
  the construction of a client, the consumption of a one-shot iterator by the selection
  callable, a listing call made by the selected sequence, the call and the return (or
  raise) of \<^verbatim>\<open>get_object\<close>, and the call of the transform.
\<close>

datatype event =
    ClientCreated string
  | IteratorConsumed nat
  | ListObjectsCalled string string
  | GetObjectCalled S3BucketKey
  | GetObjectDone S3BucketKey
  | TransformCalled S3BucketKey

text \<open>
  An \<^verbatim>\<open>Iterable[S3BucketKey]\<close> is lazy: nothing happens until it is consumed.  Consumed
  against a store in state \<open>s\<close> it makes the listing calls \<open>listings\<close>, yields the
  identifiers \<open>yielded\<close> in order and then either stops (\<open>None\<close>) or raises.
\<close>

datatype pulled =
  Pulled (listings: "(string \<times> string) list") (yielded: "S3BucketKey list") (failure: "exn option")

type_synonym 's iterable = "'s \<Rightarrow> pulled"

text \<open>
  The methods of \<^verbatim>\<open>S3Client\<close> that the dataset and its selectors call.  The class is not
  part of the source file, so its methods are parameters: they read the store, whose
  state \<open>'s\<close> is whatever the remote side holds, and return an object handle \<open>'r\<close>
  (an \<^verbatim>\<open>S3Reader\<close>) or a list of keys, or raise.
\<close>

record ('s, 'r) S3ClientOps =
  get_object :: "S3Client \<Rightarrow> string \<Rightarrow> string \<Rightarrow> 's \<Rightarrow> exn + 'r"
  list_objects :: "S3Client \<Rightarrow> string \<Rightarrow> string \<Rightarrow> 's \<Rightarrow> exn + string list"

text \<open>
  The four attributes set by \<^verbatim>\<open>__init__\<close>.  The selection callable is a Python
  callable and may hold state of its own (the argument it was built around): it is
  called with the client, against the store, after the events of the trace so far, and
  returns a sequence or raises; with it, it returns the addresses of the one-shot
  iterators it has consumed.
\<close>

record ('s, 'r, 'a) S3IterableDataset =
  ds_get_dataset_objects :: "S3Client \<Rightarrow> 's \<Rightarrow> event list \<Rightarrow> (exn + 's iterable) \<times> nat list"
  ds_transform :: "'r \<Rightarrow> exn + 'a"
  ds_region :: string
  ds_client :: "S3Client option"

section \<open>The methods of the dataset\<close>

text \<open>
  Modelled from the spec: \<^verbatim>\<open>identity\<close> is imported from \<^verbatim>\<open>_s3dataset_common\<close>, which
  is not part of the source file.  The specification says: the default transform passes
  the fetched object through unchanged.
\<close>

definition identity :: "'r \<Rightarrow> exn + ('r, 'a) item" where
  "identity obj = Inr (Object obj)"

text \<open>
  \<^verbatim>\<open>__init__\<close>.  The parameter \<^verbatim>\<open>transform\<close> has the default \<^verbatim>\<open>identity\<close>: a call
  that does not supply it passes \<open>None\<close> here.
\<close>

definition S3IterableDataset_init ::
  "string \<Rightarrow> (S3Client \<Rightarrow> 's \<Rightarrow> event list \<Rightarrow> (exn + 's iterable) \<times> nat list)
     \<Rightarrow> ('r \<Rightarrow> exn + ('r, 'a) item) option \<Rightarrow> ('s, 'r, ('r, 'a) item) S3IterableDataset" where
  "S3IterableDataset_init rgn get_dataset_objects transform =
     \<lparr>ds_get_dataset_objects = get_dataset_objects,
      ds_transform = (case transform of None \<Rightarrow> identity | Some tf \<Rightarrow> tf),
      ds_region = rgn, ds_client = None\<rparr>"

definition region :: "('s, 'r, 'a) S3IterableDataset \<Rightarrow> string" where
  "region self = ds_region self"

fun is_ClientCreated :: "event \<Rightarrow> bool" where
  "is_ClientCreated (ClientCreated _) = True"
| "is_ClientCreated _ = False"

definition clients_created :: "event list \<Rightarrow> nat" where
  "clients_created tr = length (filter is_ClientCreated tr)"

text \<open>
  \<^verbatim>\<open>_get_client\<close>: when the attribute is \<^verbatim>\<open>None\<close> a new client is constructed for the
  region and stored; the stored client is returned.
\<close>

definition get_client ::
  "('s, 'r, 'a) S3IterableDataset \<Rightarrow> event list
     \<Rightarrow> S3Client \<times> ('s, 'r, 'a) S3IterableDataset \<times> event list" where
  "get_client self tr =
     (case ds_client self of
        None \<Rightarrow>
          (let c = S3Client (clients_created tr) (region self)
           in (c, self\<lparr>ds_client := Some c\<rparr>, tr @ [ClientCreated (region self)]))
      | Some c \<Rightarrow> (c, self, tr))"

text \<open>
  \<^verbatim>\<open>_get_transformed_object\<close>: one call of \<^verbatim>\<open>get_object\<close> on the client, and the
  transform applied to what it returns.  An exception of either leaves the method at once.
\<close>

definition get_transformed_object ::
  "('s, 'r) S3ClientOps \<Rightarrow> 's \<Rightarrow> ('s, 'r, 'a) S3IterableDataset \<Rightarrow> S3BucketKey \<Rightarrow> event list
     \<Rightarrow> (exn + 'a) \<times> ('s, 'r, 'a) S3IterableDataset \<times> event list" where
  "get_transformed_object ops s self bucket_key tr =
     (case get_client self tr of
        (c, self1, tr1) \<Rightarrow>
          (case get_object ops c (bucket bucket_key) (key bucket_key) s of
             Inl e \<Rightarrow> (Inl e, self1, tr1 @ [GetObjectCalled bucket_key, GetObjectDone bucket_key])
           | Inr r \<Rightarrow>
               (ds_transform self1 r, self1,
                tr1 @ [GetObjectCalled bucket_key, GetObjectDone bucket_key,
                       TransformCalled bucket_key])))"

text \<open>
  \<^verbatim>\<open>__iter__\<close>: the client is obtained, the selection callable is called with it, and a
  lazy \<^verbatim>\<open>map\<close> over its result is returned.  Building the \<^verbatim>\<open>map\<close> object consumes
  nothing, so the result is the selected sequence itself, still unconsumed.  What the
  selection callable consumed while it ran is recorded.
\<close>

definition iter_ds ::
  "'s \<Rightarrow> ('s, 'r, 'a) S3IterableDataset \<Rightarrow> event list
     \<Rightarrow> (exn + 's iterable) \<times> ('s, 'r, 'a) S3IterableDataset \<times> event list" where
  "iter_ds s self tr =
     (case get_client self tr of
        (c, self1, tr1) \<Rightarrow>
          (case ds_get_dataset_objects self1 c s tr1 of
             (result, consumed) \<Rightarrow> (result, self1, tr1 @ map IteratorConsumed consumed)))"

text \<open>
  Pulling every item out of the \<^verbatim>\<open>map\<close> object: each identifier is taken from the
  underlying sequence and handed to \<^verbatim>\<open>_get_transformed_object\<close>; the first exception
  ends the traversal, and so does the end (or the exception) of the underlying sequence.
\<close>

fun map_items ::
  "('s, 'r) S3ClientOps \<Rightarrow> 's \<Rightarrow> S3BucketKey list \<Rightarrow> exn option
     \<Rightarrow> ('s, 'r, 'a) S3IterableDataset \<Rightarrow> event list
     \<Rightarrow> 'a list \<times> outcome \<times> ('s, 'r, 'a) S3IterableDataset \<times> event list" where
  "map_items ops s [] fin self tr =
     ([], (case fin of None \<Rightarrow> Exhausted | Some e \<Rightarrow> Raised e), self, tr)"
| "map_items ops s (bk # bks) fin self tr =
     (case get_transformed_object ops s self bk tr of
        (Inl e, self1, tr1) \<Rightarrow> ([], Raised e, self1, tr1)
      | (Inr y, self1, tr1) \<Rightarrow>
          (case map_items ops s bks fin self1 tr1 of
             (ys, out, self2, tr2) \<Rightarrow> (y # ys, out, self2, tr2)))"

definition drain ::
  "('s, 'r) S3ClientOps \<Rightarrow> 's \<Rightarrow> 's iterable \<Rightarrow> ('s, 'r, 'a) S3IterableDataset \<Rightarrow> event list
     \<Rightarrow> 'a list \<times> outcome \<times> ('s, 'r, 'a) S3IterableDataset \<times> event list" where
  "drain ops s it self tr =
     (case it s of
        Pulled ls bks fin \<Rightarrow>
          map_items ops s bks fin self (tr @ map (\<lambda>(b, p). ListObjectsCalled b p) ls))"

text \<open>A full traversal, as a \<^verbatim>\<open>for\<close> loop over the dataset makes it.\<close>

definition iterate ::
  "('s, 'r) S3ClientOps \<Rightarrow> 's \<Rightarrow> ('s, 'r, 'a) S3IterableDataset \<Rightarrow> event list
     \<Rightarrow> 'a list \<times> outcome \<times> ('s, 'r, 'a) S3IterableDataset \<times> event list" where
  "iterate ops s self tr =
     (case iter_ds s self tr of
        (Inl e, self1, tr1) \<Rightarrow> ([], Raised e, self1, tr1)
      | (Inr it, self1, tr1) \<Rightarrow> drain ops s it self1 tr1)"

section \<open>Selection helpers and construction\<close>

text \<open>
  Modelled from the spec: \<^verbatim>\<open>get_objects_from_uris\<close> and \<^verbatim>\<open>get_objects_from_prefix\<close>
  are imported from \<^verbatim>\<open>_s3dataset_common\<close>, which is not part of the source file.  The
  specification says of them: a URI names a bucket and a key (\<^verbatim>\<open>s3://bucket/key\<close>);
  \<^verbatim>\<open>from_objects\<close> parses each URI, keeps the input order and the duplicates, and a
  URI with no bucket or no key fails with \<open>InvalidSpecification\<close> when the selector
  is built, not while the sequence is consumed; \<^verbatim>\<open>from_prefix\<close> issues one listing
  call when the sequence is first consumed and yields the objects the store reports, in
  its order, a failed listing surfacing as \<open>StoreUnavailable\<close>.

  Building the selector from \<^verbatim>\<open>object_uris\<close> iterates the argument: a string is one
  URI, a collection yields its elements every time, and a one-shot iterator yields its
  elements unless the trace shows that it has been consumed before, and is consumed by
  that.
\<close>

fun uris_of :: "object_uris \<Rightarrow> event list \<Rightarrow> string list" where
  "uris_of (Str uri) tr = [uri]"
| "uris_of (Seq uris) tr = uris"
| "uris_of (Iter a uris) tr = (if IteratorConsumed a \<in> set tr then [] else uris)"

fun consumed_by :: "object_uris \<Rightarrow> nat list" where
  "consumed_by (Str uri) = []"
| "consumed_by (Seq uris) = []"
| "consumed_by (Iter a uris) = [a]"

definition parse_s3_uri :: "string \<Rightarrow> (string \<times> string) option" where
  "parse_s3_uri uri =
     (if take 5 uri = ''s3://'' then
        (let rest = drop 5 uri;
             b = takeWhile (\<lambda>ch. ch \<noteq> CHR ''/'') rest;
             k = drop 1 (dropWhile (\<lambda>ch. ch \<noteq> CHR ''/'') rest)
         in if b = [] then None else Some (b, k))
      else None)"

definition parse_object_uri :: "string \<Rightarrow> exn + S3BucketKey" where
  "parse_object_uri uri =
     (case parse_s3_uri uri of
        None \<Rightarrow> Inl InvalidSpecification
      | Some (b, k) \<Rightarrow> if k = [] then Inl InvalidSpecification else Inr (S3BucketKey b k))"

fun parse_uris :: "string list \<Rightarrow> exn + S3BucketKey list" where
  "parse_uris [] = Inr []"
| "parse_uris (uri # uris) =
     (case parse_object_uri uri of
        Inl e \<Rightarrow> Inl e
      | Inr bk \<Rightarrow> (case parse_uris uris of Inl e \<Rightarrow> Inl e | Inr bks \<Rightarrow> Inr (bk # bks)))"

definition get_objects_from_uris ::
  "object_uris \<Rightarrow> S3Client \<Rightarrow> 's \<Rightarrow> event list \<Rightarrow> (exn + 's iterable) \<times> nat list" where
  "get_objects_from_uris object_uris client s tr =
     (case parse_uris (uris_of object_uris tr) of
        Inl e \<Rightarrow> (Inl e, consumed_by object_uris)
      | Inr bks \<Rightarrow> (Inr (\<lambda>s'. Pulled [] bks None), consumed_by object_uris))"

definition get_objects_from_prefix ::
  "('s, 'r) S3ClientOps \<Rightarrow> string \<Rightarrow> S3Client \<Rightarrow> 's \<Rightarrow> event list
     \<Rightarrow> (exn + 's iterable) \<times> nat list" where
  "get_objects_from_prefix ops s3_uri client s tr =
     (case parse_s3_uri s3_uri of
        None \<Rightarrow> (Inl InvalidSpecification, [])
      | Some (b, p) \<Rightarrow>
          (Inr (\<lambda>s'. case list_objects ops client b p s' of
                       Inl e \<Rightarrow> Pulled [(b, p)] [] (Some StoreUnavailable)
                     | Inr ks \<Rightarrow> Pulled [(b, p)] (map (S3BucketKey b) ks) None), []))"

text \<open>
  The two class methods.  Each builds the dataset around a partial application of the
  helper; the helper itself is not called, and the argument is not iterated.  Each has
  the default \<^verbatim>\<open>identity\<close> for \<^verbatim>\<open>transform\<close> and passes what it has on to
  \<^verbatim>\<open>__init__\<close>.  The result is written as a value of \<open>exn + _\<close> next to the
  unchanged trace, so that a raise or a call at construction would show.
\<close>

definition from_objects ::
  "object_uris \<Rightarrow> string \<Rightarrow> ('r \<Rightarrow> exn + ('r, 'a) item) option \<Rightarrow> event list
     \<Rightarrow> (exn + ('s, 'r, ('r, 'a) item) S3IterableDataset) \<times> event list" where
  "from_objects object_uris rgn transform tr =
     (Inr (S3IterableDataset_init rgn (get_objects_from_uris object_uris)
             (Some (case transform of None \<Rightarrow> identity | Some tf \<Rightarrow> tf))), tr)"

definition from_prefix ::
  "('s, 'r) S3ClientOps \<Rightarrow> string \<Rightarrow> string \<Rightarrow> ('r \<Rightarrow> exn + ('r, 'a) item) option
     \<Rightarrow> event list \<Rightarrow> (exn + ('s, 'r, ('r, 'a) item) S3IterableDataset) \<times> event list" where
  "from_prefix ops s3_uri rgn transform tr =
     (Inr (S3IterableDataset_init rgn (get_objects_from_prefix ops s3_uri)
             (Some (case transform of None \<Rightarrow> identity | Some tf \<Rightarrow> tf))), tr)"

section \<open>Sequences of operations and observations on the trace\<close>

text \<open>
  What a user of one dataset object can do with it, each operation against the store as
  it is at that moment.
\<close>

datatype 's operation =
    CallIter 's
  | Traverse 's
  | GetClient
  | ReadRegion
  | GetTransformedObject S3BucketKey 's

fun run_op ::
  "('s, 'r) S3ClientOps \<Rightarrow> 's operation \<Rightarrow> ('s, 'r, 'a) S3IterableDataset \<times> event list
     \<Rightarrow> ('s, 'r, 'a) S3IterableDataset \<times> event list" where
  "run_op ops (CallIter s) (self, tr) = snd (iter_ds s self tr)"
| "run_op ops (Traverse s) (self, tr) = snd (snd (iterate ops s self tr))"
| "run_op ops GetClient (self, tr) = snd (get_client self tr)"
| "run_op ops ReadRegion (self, tr) = (case region self of rgn \<Rightarrow> (self, tr))"
| "run_op ops (GetTransformedObject bk s) (self, tr) = snd (get_transformed_object ops s self bk tr)"

fun run_ops ::
  "('s, 'r) S3ClientOps \<Rightarrow> 's operation list \<Rightarrow> ('s, 'r, 'a) S3IterableDataset \<times> event list
     \<Rightarrow> ('s, 'r, 'a) S3IterableDataset \<times> event list" where
  "run_ops ops [] st = st"
| "run_ops ops (x # xs) st = run_ops ops xs (run_op ops x st)"

text \<open>The object a client returns for an identifier, and the item made of it.\<close>

definition fetch :: "('s, 'r) S3ClientOps \<Rightarrow> S3Client \<Rightarrow> 's \<Rightarrow> S3BucketKey \<Rightarrow> exn + 'r" where
  "fetch ops c s bk = get_object ops c (bucket bk) (key bk) s"

definition item_of ::
  "('s, 'r) S3ClientOps \<Rightarrow> ('r \<Rightarrow> exn + 'a) \<Rightarrow> S3Client \<Rightarrow> 's \<Rightarrow> S3BucketKey \<Rightarrow> exn + 'a" where
  "item_of ops tf c s bk = (case fetch ops c s bk of Inl e \<Rightarrow> Inl e | Inr r \<Rightarrow> tf r)"

text \<open>The identifiers fetched and the identifiers transformed, as the trace records them.\<close>

fun fetched :: "event list \<Rightarrow> S3BucketKey list" where
  "fetched [] = []"
| "fetched (GetObjectCalled bk # es) = bk # fetched es"
| "fetched (_ # es) = fetched es"

fun transformed :: "event list \<Rightarrow> S3BucketKey list" where
  "transformed [] = []"
| "transformed (TransformCalled bk # es) = bk # transformed es"
| "transformed (_ # es) = transformed es"

fun listed :: "event list \<Rightarrow> (string \<times> string) list" where
  "listed [] = []"
| "listed (ListObjectsCalled b p # es) = (b, p) # listed es"
| "listed (_ # es) = listed es"

text \<open>
  The number of \<^verbatim>\<open>get_object\<close> calls that have begun and not yet ended after a
  sequence of events, starting from \<open>n\<close> open calls.
\<close>

fun in_flight :: "nat \<Rightarrow> event list \<Rightarrow> nat" where
  "in_flight n [] = n"
| "in_flight n (GetObjectCalled _ # es) = in_flight (Suc n) es"
| "in_flight n (GetObjectDone _ # es) = in_flight (n - 1) es"
| "in_flight n (_ # es) = in_flight n es"

text \<open>
  A small store for concrete runs: for each object it holds, the payload it serves or the
  error it answers with.  An object it does not hold is \<open>NotFound\<close>; the listing
  reports the keys of a bucket that start with the prefix, in the order the store holds
  them.
\<close>

type_synonym demo_state = "(S3BucketKey \<times> (exn + string)) list"

definition demo_ops :: "(demo_state, string) S3ClientOps" where
  "demo_ops =
     \<lparr>get_object = (\<lambda>c b k s. case map_of s (S3BucketKey b k) of
                                  None \<Rightarrow> Inl NotFound | Some answer \<Rightarrow> answer),
      list_objects = (\<lambda>c b p s.
         Inr (map (key \<circ> fst)
               (filter (\<lambda>(bk, _). bucket bk = b \<and> take (length p) (key bk) = p) s)))\<rparr>"

definition demo_store :: demo_state where
  "demo_store =
     [(S3BucketKey ''b'' ''a.bin'', Inr ''0123456789''),
      (S3BucketKey ''b'' ''b.bin'', Inr ''abcdefghij''),
      (S3BucketKey ''b'' ''data/x'', Inr ''xxxxxxxxxx''),
      (S3BucketKey ''b'' ''flaky.bin'', Inl TransientFetchError)]"

definition demo_client :: S3Client where
  "demo_client = S3Client 0 ''us-east-1''"

definition demo_ids :: "S3BucketKey list" where
  "demo_ids = [S3BucketKey ''b'' ''a.bin'', S3BucketKey ''b'' ''b.bin'', S3BucketKey ''b'' ''a.bin'']"

definition demo_dataset :: "(demo_state, string, (string, nat) item) S3IterableDataset" where
  "demo_dataset =
     S3IterableDataset_init ''us-east-1''
       (get_objects_from_uris (Seq [''s3://b/a.bin'', ''s3://b/b.bin'', ''s3://b/a.bin''])) None"

text \<open>The events of one full traversal of that dataset, from an empty trace.\<close>

definition demo_trace :: "event list" where
  "demo_trace =
     [ClientCreated ''us-east-1'',
      GetObjectCalled (S3BucketKey ''b'' ''a.bin''), GetObjectDone (S3BucketKey ''b'' ''a.bin''),
      TransformCalled (S3BucketKey ''b'' ''a.bin''),
      GetObjectCalled (S3BucketKey ''b'' ''b.bin''), GetObjectDone (S3BucketKey ''b'' ''b.bin''),
      TransformCalled (S3BucketKey ''b'' ''b.bin''),
      GetObjectCalled (S3BucketKey ''b'' ''a.bin''), GetObjectDone (S3BucketKey ''b'' ''a.bin''),
      TransformCalled (S3BucketKey ''b'' ''a.bin'')]"

text \<open>A transform that raises on one payload and measures the others.\<close>

definition demo_transform :: "string \<Rightarrow> exn + (string, nat) item" where
  "demo_transform payload =
     (if payload = ''abcdefghij'' then Inl (UserError ''boom'')
      else Inr (Value (length payload)))"

text \<open>A dataset whose second object the store answers with a transient error.\<close>

definition flaky_dataset :: "(demo_state, string, (string, nat) item) S3IterableDataset" where
  "flaky_dataset =
     S3IterableDataset_init ''us-east-1''
       (get_objects_from_uris (Seq [''s3://b/a.bin'', ''s3://b/flaky.bin'', ''s3://b/b.bin'']))
       None"

text \<open>A dataset whose transform raises on its second object.\<close>

definition measuring_dataset :: "(demo_state, string, (string, nat) item) S3IterableDataset" where
  "measuring_dataset =
     S3IterableDataset_init ''us-east-1''
       (get_objects_from_uris (Seq [''s3://b/a.bin'', ''s3://b/b.bin'', ''s3://b/a.bin'']))
       (Some demo_transform)"

text \<open>A dataset built from a list whose second URI has no key.\<close>

definition malformed_dataset :: "(demo_state, string, (string, nat) item) S3IterableDataset" where
  "malformed_dataset =
     S3IterableDataset_init ''us-east-1''
       (get_objects_from_uris (Seq [''s3://b/a.bin'', ''s3://b''])) (Some identity)"

text \<open>A dataset built around a generator of two URIs, which lives at address 0.\<close>

definition one_shot_dataset :: "(demo_state, string, (string, nat) item) S3IterableDataset" where
  "one_shot_dataset =
     S3IterableDataset_init ''us-east-1''
       (get_objects_from_uris (Iter 0 [''s3://b/a.bin'', ''s3://b/b.bin''])) (Some identity)"

text \<open>
  Once the client exists, a traversal no longer changes the dataset, and what it emits and
  records depends only on the client, the store, the identifiers and, through the
  selection callable, the trace so far.  \<open>walk\<close> states
  this dependence; \<open>map_items_walk\<close> below shows that it is what \<open>map_items\<close> computes.
\<close>

definition call_events ::
  "('s, 'r) S3ClientOps \<Rightarrow> S3Client \<Rightarrow> 's \<Rightarrow> S3BucketKey \<Rightarrow> event list" where
  "call_events ops c s bk =
     (case fetch ops c s bk of
        Inl e \<Rightarrow> [GetObjectCalled bk, GetObjectDone bk]
      | Inr r \<Rightarrow> [GetObjectCalled bk, GetObjectDone bk, TransformCalled bk])"

fun walk ::
  "('s, 'r) S3ClientOps \<Rightarrow> ('r \<Rightarrow> exn + 'a) \<Rightarrow> S3Client \<Rightarrow> 's \<Rightarrow> S3BucketKey list \<Rightarrow> exn option
     \<Rightarrow> 'a list \<times> outcome \<times> event list" where
  "walk ops tf c s [] fin = ([], (case fin of None \<Rightarrow> Exhausted | Some e \<Rightarrow> Raised e), [])"
| "walk ops tf c s (bk # bks) fin =
     (case item_of ops tf c s bk of
        Inl e \<Rightarrow> ([], Raised e, call_events ops c s bk)
      | Inr y \<Rightarrow>
          (case walk ops tf c s bks fin of
             (ys, out, es) \<Rightarrow> (y # ys, out, call_events ops c s bk @ es)))"

definition traversal ::
  "('s, 'r) S3ClientOps \<Rightarrow> ('s, 'r, 'a) S3IterableDataset \<Rightarrow> S3Client \<Rightarrow> 's \<Rightarrow> event list
     \<Rightarrow> 'a list \<times> outcome \<times> event list" where
  "traversal ops self c s tr =
     (case ds_get_dataset_objects self c s tr of
        (Inl e, consumed) \<Rightarrow> ([], Raised e, map IteratorConsumed consumed)
      | (Inr it, consumed) \<Rightarrow>
          (case it s of
             Pulled ls bks fin \<Rightarrow>
               (case walk ops (ds_transform self) c s bks fin of
                  (ys, out, es) \<Rightarrow>
                    (ys, out,
                     map IteratorConsumed consumed
                     @ map (\<lambda>(b, p). ListObjectsCalled b p) ls @ es))))"

section \<open>Basic facts\<close>

lemma get_client_Some: "ds_client self = Some c \<Longrightarrow> get_client self tr = (c, self, tr)"
  by (simp add: get_client_def)

lemma get_client_sets:
  "get_client self tr = (c, self1, tr1) \<Longrightarrow> ds_client self1 = Some c"
  by (cases "ds_client self") (auto simp: get_client_def Let_def)

lemma get_client_frame:
  "get_client self tr = (c, self1, tr1) \<Longrightarrow> self1 = self\<lparr>ds_client := Some c\<rparr>"
  by (cases "ds_client self") (auto simp: get_client_def Let_def)

lemma gto_Some:
  "ds_client self = Some c \<Longrightarrow>
   get_transformed_object ops s self bk tr =
     (item_of ops (ds_transform self) c s bk, self, tr @ call_events ops c s bk)"
  by (simp add: get_transformed_object_def get_client_Some item_of_def call_events_def fetch_def
           split: sum.splits)

lemma map_items_walk:
  "ds_client self = Some c \<Longrightarrow>
   map_items ops s bks fin self tr =
     (case walk ops (ds_transform self) c s bks fin of
        (ys, out, es) \<Rightarrow> (ys, out, self, tr @ es))"
proof (induction bks arbitrary: tr)
  case Nil
  then show ?case by simp
next
  case (Cons bk bks)
  show ?case
  proof (cases "item_of ops (ds_transform self) c s bk")
    case (Inl e)
    with Cons.prems show ?thesis by (simp add: gto_Some)
  next
    case (Inr y)
    with Cons.prems Cons.IH [OF Cons.prems] show ?thesis
      by (simp add: gto_Some split: prod.splits)
  qed
qed

lemma drain_walk:
  assumes "ds_client self = Some c"
  shows "drain ops s it self tr =
           (case it s of
              Pulled ls bks fin \<Rightarrow>
                (case walk ops (ds_transform self) c s bks fin of
                   (ys, out, es) \<Rightarrow>
                     (ys, out, self, tr @ map (\<lambda>(b, p). ListObjectsCalled b p) ls @ es)))"
  by (simp add: drain_def map_items_walk [OF assms] split: prod.splits pulled.splits)

lemma iterate_traversal:
  assumes "get_client self tr = (c, self1, tr1)"
  shows "iterate ops s self tr =
           (case traversal ops self c s tr1 of (ys, out, es) \<Rightarrow> (ys, out, self1, tr1 @ es))"
proof -
  have c: "ds_client self1 = Some c" using assms by (rule get_client_sets)
  have f: "ds_transform self1 = ds_transform self"
    "ds_get_dataset_objects self1 = ds_get_dataset_objects self"
    using get_client_frame [OF assms] by simp_all
  obtain res consumed where sel: "ds_get_dataset_objects self c s tr1 = (res, consumed)"
    by (cases "ds_get_dataset_objects self c s tr1") auto
  show ?thesis
  proof (cases res)
    case (Inl e)
    with assms f sel show ?thesis
      by (simp add: iterate_def iter_ds_def traversal_def)
  next
    case (Inr it)
    obtain ls bks fin where p: "it s = Pulled ls bks fin" by (cases "it s") auto
    from assms f sel Inr show ?thesis
      by (simp add: iterate_def iter_ds_def traversal_def p drain_walk [OF c]
            split: prod.splits)
  qed
qed

lemma iter_ds_client:
  assumes "iter_ds s self tr = (r, self1, tr1)" and "ds_client self1 = Some c"
  shows "\<exists>trA consumed. get_client self tr = (c, self1, trA)
           \<and> ds_get_dataset_objects self c s trA = (r, consumed)
           \<and> tr1 = trA @ map IteratorConsumed consumed"
proof -
  obtain c' self' tr' where g: "get_client self tr = (c', self', tr')"
    by (cases "get_client self tr") auto
  obtain r' consumed where sel: "ds_get_dataset_objects self' c' s tr' = (r', consumed)"
    by (cases "ds_get_dataset_objects self' c' s tr'") auto
  from assms(1) g sel have e: "self' = self1" "r' = r" "tr1 = tr' @ map IteratorConsumed consumed"
    by (auto simp: iter_ds_def)
  from g e assms(2) have "c' = c" using get_client_sets [OF g] by simp
  moreover have "ds_get_dataset_objects self' = ds_get_dataset_objects self"
    using get_client_frame [OF g] by simp
  ultimately show ?thesis using g e sel by auto
qed

lemma iterate_after_iter:
  assumes "iter_ds s self tr = (Inr it, self1, tr1)"
      and "ds_client self1 = Some c"
      and "it s = Pulled ls bks fin"
  shows "iterate ops s self tr =
           (case walk ops (ds_transform self) c s bks fin of
              (ys, out, es) \<Rightarrow>
                (ys, out, self1, tr1 @ map (\<lambda>(b, p). ListObjectsCalled b p) ls @ es))"
proof -
  from iter_ds_client [OF assms(1,2)] obtain trA where "get_client self tr = (c, self1, trA)"
    by blast
  then have "ds_transform self1 = ds_transform self" using get_client_frame by fastforce
  then show ?thesis
    by (simp add: iterate_def assms(1,3) drain_walk [OF assms(2)])
qed

lemma walk_ok_prefix:
  "\<forall>x\<in>set pre. \<exists>y. item_of ops tf c s x = Inr y \<Longrightarrow>
   walk ops tf c s (pre @ rest) fin =
     (case walk ops tf c s rest fin of
        (ys, out, es) \<Rightarrow>
          (map (projr \<circ> item_of ops tf c s) pre @ ys, out,
           concat (map (call_events ops c s) pre) @ es))"
  by (induction pre) (auto split: prod.splits sum.splits)

lemma map_Inr_projr:
  "\<forall>x\<in>set xs. \<exists>y. f x = Inr y \<Longrightarrow> map Inr (map (projr \<circ> f) xs) = map f xs"
  by (induction xs) auto

lemma fetched_append: "fetched (es @ es') = fetched es @ fetched es'"
  by (induction es rule: fetched.induct) simp_all

lemma transformed_append: "transformed (es @ es') = transformed es @ transformed es'"
  by (induction es rule: transformed.induct) simp_all

lemma listed_append: "listed (es @ es') = listed es @ listed es'"
  by (induction es rule: listed.induct) simp_all

lemma clients_created_Nil: "clients_created [] = 0"
  by (simp add: clients_created_def)

lemma clients_created_Cons:
  "clients_created (e # es) = (if is_ClientCreated e then 1 else 0) + clients_created es"
  by (simp add: clients_created_def)

lemma clients_created_append:
  "clients_created (es @ es') = clients_created es + clients_created es'"
  by (simp add: clients_created_def)

lemma in_flight_append: "in_flight n (es @ es') = in_flight (in_flight n es) es'"
  by (induction n es rule: in_flight.induct) simp_all

lemma call_events_obs:
  "fetched (call_events ops c s bk) = [bk]"
  "listed (call_events ops c s bk) = []"
  "clients_created (call_events ops c s bk) = 0"
  "in_flight n (call_events ops c s bk) = n"
  by (simp_all add: call_events_def clients_created_Cons clients_created_Nil split: sum.splits)

lemma call_events_transformed:
  "transformed (call_events ops c s bk) = (case fetch ops c s bk of Inl e \<Rightarrow> [] | Inr r \<Rightarrow> [bk])"
  by (simp add: call_events_def split: sum.splits)

lemma list_events_obs:
  "fetched (map (\<lambda>(b, p). ListObjectsCalled b p) ls) = []"
  "transformed (map (\<lambda>(b, p). ListObjectsCalled b p) ls) = []"
  "listed (map (\<lambda>(b, p). ListObjectsCalled b p) ls) = ls"
  "clients_created (map (\<lambda>(b, p). ListObjectsCalled b p) ls) = 0"
  by (induction ls; auto simp: clients_created_Cons clients_created_Nil)+

lemma consumed_events_obs:
  "fetched (map IteratorConsumed as) = []"
  "transformed (map IteratorConsumed as) = []"
  "listed (map IteratorConsumed as) = []"
  "clients_created (map IteratorConsumed as) = 0"
  by (induction as; auto simp: clients_created_Cons clients_created_Nil)+

lemma consumed_events_in_flight: "in_flight n (map IteratorConsumed as) = n"
  by (induction as arbitrary: n) auto

lemma list_events_in_flight:
  "in_flight n (map (\<lambda>(b, p). ListObjectsCalled b p) ls) = n"
  by (induction ls arbitrary: n) auto

lemma walk_obs:
  "walk ops tf c s bks fin = (ys, out, es) \<Longrightarrow> listed es = [] \<and> clients_created es = 0"
  by (induction bks arbitrary: ys out es)
     (auto simp: listed_append clients_created_append call_events_obs clients_created_Nil
           split: sum.splits prod.splits)

lemma traversal_obs:
  assumes "traversal ops self c s tr = (ys, out, es)"
  shows "clients_created es = 0"
  using assms
  by (auto simp: traversal_def clients_created_append list_events_obs consumed_events_obs
        split: sum.splits pulled.splits prod.splits dest: walk_obs)

lemma traversal_cong:
  "ds_transform self' = ds_transform self \<Longrightarrow>
   ds_get_dataset_objects self' = ds_get_dataset_objects self \<Longrightarrow>
   traversal ops self' c s tr = traversal ops self c s tr"
  by (simp add: traversal_def split: sum.splits pulled.splits prod.splits)

lemma get_client_trace:
  assumes "get_client self tr = (c, self1, tr1)"
  shows "\<exists>ce. tr1 = tr @ ce \<and> fetched ce = [] \<and> transformed ce = [] \<and> listed ce = []
           \<and> (\<forall>n. in_flight n ce = n)
           \<and> clients_created ce = (if ds_client self = None then 1 else 0)"
  using assms
  by (cases "ds_client self")
     (auto simp: get_client_def Let_def clients_created_Cons clients_created_Nil)

lemmas demo_defs =
  demo_dataset_def flaky_dataset_def measuring_dataset_def malformed_dataset_def
  one_shot_dataset_def demo_client_def demo_ids_def demo_ops_def demo_store_def demo_transform_def
  S3IterableDataset_init_def identity_def region_def
  get_objects_from_uris_def get_objects_from_prefix_def parse_object_uri_def parse_s3_uri_def
  from_objects_def from_prefix_def

lemmas run_defs =
  iterate_def iter_ds_def drain_def get_transformed_object_def get_client_def
  clients_created_def Let_def

lemma demo_run:
  "iterate demo_ops demo_store demo_dataset [] =
     ([Object ''0123456789'', Object ''abcdefghij'', Object ''0123456789''], Exhausted,
      demo_dataset\<lparr>ds_client := Some demo_client\<rparr>, demo_trace)"
  by (simp add: run_defs demo_defs demo_trace_def)

section \<open>Order and completeness of a traversal\<close>

text \<open>
  Claim C1, as stated: for every transform, when no store error occurs, a traversal emits
  one item per identifier.  A transform may raise.  Below, the selection callable yields
  three identifiers and every fetch succeeds, but the transform raises on the second
  object: the traversal emits one item and ends with the exception.
\<close>

theorem one_to_one_counterexample:
  "\<not> isl (fst (ds_get_dataset_objects measuring_dataset demo_client demo_store
                 [ClientCreated ''us-east-1'']))
   \<and> yielded (projr (fst (ds_get_dataset_objects measuring_dataset demo_client demo_store
                            [ClientCreated ''us-east-1''])) demo_store) = demo_ids
   \<and> failure (projr (fst (ds_get_dataset_objects measuring_dataset demo_client demo_store
                            [ClientCreated ''us-east-1''])) demo_store) = None
   \<and> map (fetch demo_ops demo_client demo_store) demo_ids =
        [Inr ''0123456789'', Inr ''abcdefghij'', Inr ''0123456789'']
   \<and> fst (iterate demo_ops demo_store measuring_dataset []) = [Value 10]
   \<and> fst (snd (iterate demo_ops demo_store measuring_dataset [])) = Raised (UserError ''boom'')"
  by (simp add: run_defs demo_defs fetch_def)

text \<open>
  Claim C1, amended.  Let the selection callable, called by \<^verbatim>\<open>__iter__\<close> with the client
  of the dataset, return a sequence that yields the finite list of identifiers \<open>ids\<close>
  and then stops; let no fetch fail, and let the transform return on every fetched
  object.  Then the traversal ends with the end-of-sequence signal and emits exactly one
  item per identifier, in the order of \<open>ids\<close>: the \<open>i\<close>-th item is the transform of
  the object fetched for the \<open>i\<close>-th identifier.  Nothing is skipped or emitted twice;
  an identifier that occurs twice in \<open>ids\<close> is fetched and emitted twice.
\<close>

theorem iterate_one_to_one:
  assumes "get_client self tr = (c, self1, tr1)"
      and "ds_get_dataset_objects self c s tr1 = (Inr it, consumed)"
      and "it s = Pulled ls ids None"
      and "\<forall>bk\<in>set ids. \<exists>r. fetch ops c s bk = Inr r \<and> (\<exists>y. ds_transform self r = Inr y)"
  shows "\<exists>ys es. iterate ops s self tr = (ys, Exhausted, self1, tr1 @ es)
           \<and> length ys = length ids
           \<and> map Inr ys = map (item_of ops (ds_transform self) c s) ids"
proof -
  let ?f = "item_of ops (ds_transform self) c s"
  let ?es = "map IteratorConsumed consumed @ map (\<lambda>(b, p). ListObjectsCalled b p) ls
             @ concat (map (call_events ops c s) ids)"
  have ok: "\<forall>x\<in>set ids. \<exists>y. ?f x = Inr y"
    using assms(4) by (auto simp: item_of_def)
  have w: "walk ops (ds_transform self) c s ids None =
             (map (projr \<circ> ?f) ids, Exhausted, concat (map (call_events ops c s) ids))"
    using walk_ok_prefix [OF ok, of "[]" None] by simp
  have run: "iterate ops s self tr = (map (projr \<circ> ?f) ids, Exhausted, self1, tr1 @ ?es)"
    by (simp add: iterate_traversal [OF assms(1)] traversal_def assms(2,3) w)
  have items: "map Inr (map (projr \<circ> ?f) ids) = map ?f ids"
    using ok by (rule map_Inr_projr)
  have len: "length (map (projr \<circ> ?f) ids) = length ids" by simp
  show ?thesis
    by (rule exI [where x = "map (projr \<circ> ?f) ids"], rule exI [where x = ?es])
       (intro conjI run len items)
qed

lemma demo_get_client:
  "get_client demo_dataset [] =
     (demo_client, demo_dataset\<lparr>ds_client := Some demo_client\<rparr>, [ClientCreated ''us-east-1''])"
  by (simp add: run_defs demo_defs)

lemma demo_selected:
  "ds_get_dataset_objects demo_dataset demo_client demo_store [ClientCreated ''us-east-1''] =
     (Inr (\<lambda>s'. Pulled [] demo_ids None), [])"
  by (simp add: demo_defs)

theorem iterate_one_to_one_witness:
  "ds_get_dataset_objects demo_dataset demo_client demo_store [ClientCreated ''us-east-1''] =
     (Inr (\<lambda>s'. Pulled [] demo_ids None), [])
   \<and> (\<exists>ys es. iterate demo_ops demo_store demo_dataset [] =
          (ys, Exhausted, demo_dataset\<lparr>ds_client := Some demo_client\<rparr>,
           [ClientCreated ''us-east-1''] @ es)
        \<and> ys = [Object ''0123456789'', Object ''abcdefghij'', Object ''0123456789''])"
proof -
  have h3: "(\<lambda>s'. Pulled [] demo_ids None) demo_store = Pulled [] demo_ids None" by simp
  have h4: "\<forall>bk\<in>set demo_ids. \<exists>r. fetch demo_ops demo_client demo_store bk = Inr r
              \<and> (\<exists>y. ds_transform demo_dataset r = Inr y)"
    by (simp add: fetch_def demo_defs)
  have items: "map (item_of demo_ops (ds_transform demo_dataset) demo_client demo_store) demo_ids =
     [Inr (Object ''0123456789''), Inr (Object ''abcdefghij''), Inr (Object ''0123456789'')]"
    by (simp add: item_of_def fetch_def demo_defs)
  from iterate_one_to_one [OF demo_get_client demo_selected h3 h4, unfolded items]
  obtain ys es where
    "iterate demo_ops demo_store demo_dataset [] =
       (ys, Exhausted, demo_dataset\<lparr>ds_client := Some demo_client\<rparr>,
        [ClientCreated ''us-east-1''] @ es)"
    and "map (Inr :: (string, nat) item \<Rightarrow> exn + (string, nat) item) ys =
           [Inr (Object ''0123456789''), Inr (Object ''abcdefghij''), Inr (Object ''0123456789'')]"
    by (elim exE conjE)
  then show ?thesis using demo_selected by (auto simp: map_eq_Cons_conv)
qed


section \<open>Restarting a traversal\<close>

text \<open>
  Claim C2, as stated: for every dataset a second traversal, the store unchanged, yields
  the sequence of the first.  \<^verbatim>\<open>from_objects\<close> keeps a reference to its argument and the
  selector is built from it again at every call of \<^verbatim>\<open>__iter__\<close>.  When the argument is
  a one-shot iterator, the first traversal consumes it: below, the first traversal emits
  two items and the second, against the same store, none.
\<close>

theorem iterate_restart_counterexample:
  "from_objects (Iter 0 [''s3://b/a.bin'', ''s3://b/b.bin'']) ''us-east-1'' None [] =
     (Inr one_shot_dataset, [])
   \<and> iterate demo_ops demo_store one_shot_dataset [] =
       ([Object ''0123456789'', Object ''abcdefghij''], Exhausted,
        one_shot_dataset\<lparr>ds_client := Some demo_client\<rparr>,
        [ClientCreated ''us-east-1'', IteratorConsumed 0,
         GetObjectCalled (S3BucketKey ''b'' ''a.bin''), GetObjectDone (S3BucketKey ''b'' ''a.bin''),
         TransformCalled (S3BucketKey ''b'' ''a.bin''),
         GetObjectCalled (S3BucketKey ''b'' ''b.bin''), GetObjectDone (S3BucketKey ''b'' ''b.bin''),
         TransformCalled (S3BucketKey ''b'' ''b.bin'')])
   \<and> iterate demo_ops demo_store (one_shot_dataset\<lparr>ds_client := Some demo_client\<rparr>)
        [ClientCreated ''us-east-1'', IteratorConsumed 0,
         GetObjectCalled (S3BucketKey ''b'' ''a.bin''), GetObjectDone (S3BucketKey ''b'' ''a.bin''),
         TransformCalled (S3BucketKey ''b'' ''a.bin''),
         GetObjectCalled (S3BucketKey ''b'' ''b.bin''), GetObjectDone (S3BucketKey ''b'' ''b.bin''),
         TransformCalled (S3BucketKey ''b'' ''b.bin'')] =
       ([], Exhausted, one_shot_dataset\<lparr>ds_client := Some demo_client\<rparr>,
        [ClientCreated ''us-east-1'', IteratorConsumed 0,
         GetObjectCalled (S3BucketKey ''b'' ''a.bin''), GetObjectDone (S3BucketKey ''b'' ''a.bin''),
         TransformCalled (S3BucketKey ''b'' ''a.bin''),
         GetObjectCalled (S3BucketKey ''b'' ''b.bin''), GetObjectDone (S3BucketKey ''b'' ''b.bin''),
         TransformCalled (S3BucketKey ''b'' ''b.bin''), IteratorConsumed 0])"
  by (simp add: run_defs demo_defs)

text \<open>
  A selection callable built by \<^verbatim>\<open>from_prefix\<close>, or by \<^verbatim>\<open>from_objects\<close> around a
  string or a collection, returns the same sequence whenever it is called.
\<close>

lemma from_uris_repeatable:
  "\<forall>a uris. object_uris \<noteq> Iter a uris \<Longrightarrow>
   fst (get_objects_from_uris object_uris c s tr2) = fst (get_objects_from_uris object_uris c s tr1)"
  by (cases object_uris) (simp_all add: get_objects_from_uris_def)

lemma from_prefix_repeatable:
  "fst (get_objects_from_prefix ops s3_uri c s tr2) = fst (get_objects_from_prefix ops s3_uri c s tr1)"
  by (simp add: get_objects_from_prefix_def split: option.splits)

text \<open>
  Claim C2, amended.  Let the selection callable of a dataset return, when it is called
  again at the start of a second traversal, the sequence it returned at the first (as it
  does for a dataset built by \<^verbatim>\<open>from_prefix\<close>, or by \<^verbatim>\<open>from_objects\<close> from a string
  or a collection that can be iterated again).  Then after a full traversal a second
  traversal against the same store (its state \<open>s\<close> unchanged), begun at any later point
  \<open>tr2\<close> of the trace, emits the same items and ends the same way.  It leaves the
  dataset as the first one left it, and it makes the same listing calls, fetches and
  transform calls again, in the same order: nothing of the first traversal is kept and
  reused, apart from the client.
\<close>

theorem iterate_restart:
  assumes "get_client self tr = (c, selfA, trA)"
      and "iterate ops s self tr = (ys, out, self1, tr1)"
      and "fst (ds_get_dataset_objects self c s tr2) = fst (ds_get_dataset_objects self c s trA)"
  shows "\<exists>es1 es2. tr1 = tr @ es1
           \<and> iterate ops s self1 tr2 = (ys, out, self1, tr2 @ es2)
           \<and> listed es2 = listed es1 \<and> fetched es2 = fetched es1
           \<and> transformed es2 = transformed es1"
proof -
  note g = assms(1)
  obtain res consumed1 where s1: "ds_get_dataset_objects self c s trA = (res, consumed1)"
    by (cases "ds_get_dataset_objects self c s trA") auto
  obtain res2 consumed2 where s2: "ds_get_dataset_objects self c s tr2 = (res2, consumed2)"
    by (cases "ds_get_dataset_objects self c s tr2") auto
  from assms(3) s1 s2 have same: "res2 = res" by simp
  obtain ys1 out1 es where t1: "traversal ops self c s trA = (ys1, out1, es)"
    by (cases "traversal ops self c s trA") auto
  obtain ys2 out2 es' where t2: "traversal ops self c s tr2 = (ys2, out2, es')"
    by (cases "traversal ops self c s tr2") auto
  have rel: "ys2 = ys1 \<and> out2 = out1 \<and> listed es' = listed es \<and> fetched es' = fetched es
             \<and> transformed es' = transformed es"
  proof (cases res)
    case (Inl e)
    with t1 t2 s1 s2 same show ?thesis
      by (auto simp: traversal_def consumed_events_obs)
  next
    case (Inr it)
    obtain ls bks fin where p: "it s = Pulled ls bks fin" by (cases "it s") auto
    obtain ysw outw esw where w: "walk ops (ds_transform self) c s bks fin = (ysw, outw, esw)"
      by (cases "walk ops (ds_transform self) c s bks fin") auto
    from t1 s1 Inr p w have "ys1 = ysw" "out1 = outw"
      "es = map IteratorConsumed consumed1 @ map (\<lambda>(b, p). ListObjectsCalled b p) ls @ esw"
      by (simp_all add: traversal_def)
    moreover from t2 s2 same Inr p w have "ys2 = ysw" "out2 = outw"
      "es' = map IteratorConsumed consumed2 @ map (\<lambda>(b, p). ListObjectsCalled b p) ls @ esw"
      by (simp_all add: traversal_def)
    ultimately show ?thesis
      by (simp add: listed_append fetched_append transformed_append consumed_events_obs)
  qed
  from assms(2) iterate_traversal [OF g, of ops s] t1
  have e: "ys1 = ys" "out1 = out" "selfA = self1" "tr1 = trA @ es" by simp_all
  from get_client_trace [OF g] obtain ce where
    ce: "trA = tr @ ce" "fetched ce = []" "transformed ce = []" "listed ce = []" by blast
  have c1: "ds_client self1 = Some c" using get_client_sets [OF g] e by simp
  then have g2: "get_client self1 tr2 = (c, self1, tr2)" by (rule get_client_Some)
  have "traversal ops self1 c s tr2 = traversal ops self c s tr2"
    using get_client_frame [OF g] e by (intro traversal_cong) simp_all
  with iterate_traversal [OF g2, of ops s] t2 rel e
  have run2: "iterate ops s self1 tr2 = (ys, out, self1, tr2 @ es')" by simp
  have tr1: "tr1 = tr @ (ce @ es)" using e ce by simp
  have obs: "listed es' = listed (ce @ es)" "fetched es' = fetched (ce @ es)"
    "transformed es' = transformed (ce @ es)"
    using ce rel by (simp_all add: listed_append fetched_append transformed_append)
  show ?thesis
    by (rule exI [where x = "ce @ es"], rule exI [where x = es'])
       (intro conjI tr1 run2 obs)
qed

theorem iterate_restart_witness:
  "iterate demo_ops demo_store demo_dataset [] =
     ([Object ''0123456789'', Object ''abcdefghij'', Object ''0123456789''], Exhausted,
      demo_dataset\<lparr>ds_client := Some demo_client\<rparr>, demo_trace)
   \<and> (\<exists>es2. iterate demo_ops demo_store (demo_dataset\<lparr>ds_client := Some demo_client\<rparr>)
               demo_trace
             = ([Object ''0123456789'', Object ''abcdefghij'', Object ''0123456789''], Exhausted,
                demo_dataset\<lparr>ds_client := Some demo_client\<rparr>, demo_trace @ es2)
           \<and> listed es2 = []
           \<and> fetched es2 = demo_ids
           \<and> transformed es2 = demo_ids)"
proof -
  have rep: "fst (ds_get_dataset_objects demo_dataset demo_client demo_store demo_trace) =
             fst (ds_get_dataset_objects demo_dataset demo_client demo_store
                    [ClientCreated ''us-east-1''])"
    by (simp add: demo_defs)
  from iterate_restart [OF demo_get_client demo_run rep]
  obtain es1 es2 where
    e1: "demo_trace = [] @ es1"
    and r2: "iterate demo_ops demo_store (demo_dataset\<lparr>ds_client := Some demo_client\<rparr>)
               demo_trace
             = ([Object ''0123456789'', Object ''abcdefghij'', Object ''0123456789''], Exhausted,
                demo_dataset\<lparr>ds_client := Some demo_client\<rparr>, demo_trace @ es2)"
    and o: "listed es2 = listed es1" "fetched es2 = fetched es1"
      "transformed es2 = transformed es1"
    by (elim exE conjE)
  from e1 have "es1 = demo_trace" by simp
  with o have "listed es2 = []" "fetched es2 = demo_ids" "transformed es2 = demo_ids"
    by (simp_all add: demo_trace_def demo_ids_def)
  with r2 demo_run show ?thesis by (intro conjI exI [where x = es2])
qed


section \<open>The client handle and the configuration\<close>

text \<open>
  Every operation but reading the region first obtains the client and then only appends
  events that create no client.
\<close>

lemma run_op_shape:
  assumes "x \<noteq> ReadRegion"
  shows "\<exists>c self1 tr1 es. get_client self tr = (c, self1, tr1)
           \<and> run_op ops x (self, tr) = (self1, tr1 @ es) \<and> clients_created es = 0"
proof -
  obtain c self1 tr1 where g: "get_client self tr = (c, self1, tr1)"
    by (cases "get_client self tr") auto
  show ?thesis
  proof (cases x)
    case (CallIter s)
    obtain res consumed where "ds_get_dataset_objects self1 c s tr1 = (res, consumed)"
      by (cases "ds_get_dataset_objects self1 c s tr1") auto
    with g CallIter show ?thesis by (simp add: iter_ds_def consumed_events_obs)
  next
    case (Traverse s)
    obtain ys out es where t: "traversal ops self c s tr1 = (ys, out, es)"
      by (cases "traversal ops self c s tr1") auto
    with g Traverse traversal_obs [OF t] show ?thesis
      by (simp add: iterate_traversal [OF g])
  next
    case GetClient
    with g show ?thesis by (simp add: clients_created_Nil)
  next
    case ReadRegion
    with assms show ?thesis by simp
  next
    case (GetTransformedObject bk s)
    with g show ?thesis
      by (auto simp: get_transformed_object_def clients_created_Cons clients_created_Nil
            split: sum.splits)
  qed
qed

lemma run_op_inv:
  assumes "run_op ops x (self, tr) = (self', tr')"
  shows "ds_region self' = ds_region self
       \<and> ds_transform self' = ds_transform self
       \<and> ds_get_dataset_objects self' = ds_get_dataset_objects self
       \<and> (\<forall>c. ds_client self = Some c \<longrightarrow> ds_client self' = Some c)
       \<and> fst (get_client self' tr') = fst (get_client self tr)
       \<and> clients_created tr' + (if ds_client self' = None then 1 else 0) =
           clients_created tr + (if ds_client self = None then 1 else 0)
       \<and> (ds_client self' = None) = (ds_client self = None \<and> x = ReadRegion)"
proof (cases "x = ReadRegion")
  case True
  with assms show ?thesis by auto
next
  case False
  from run_op_shape [OF False, of self tr ops] assms
  obtain c self1 tr1 es where g: "get_client self tr = (c, self1, tr1)"
    and r: "self' = self1" "tr' = tr1 @ es" and es: "clients_created es = 0"
    by auto
  from get_client_trace [OF g] obtain ce where
    ce: "tr1 = tr @ ce" "clients_created ce = (if ds_client self = None then 1 else 0)"
    by blast
  have f: "self1 = self\<lparr>ds_client := Some c\<rparr>" using g by (rule get_client_frame)
  have c1: "ds_client self' = Some c" using f r by simp
  have old: "ds_client self = Some c0 \<Longrightarrow> c0 = c" for c0
    using g get_client_Some [of self c0 tr] by simp
  have "fst (get_client self' tr') = c" using get_client_Some [OF c1, of tr'] by simp
  moreover have "fst (get_client self tr) = c" using g by simp
  moreover have "clients_created tr' = clients_created tr + (if ds_client self = None then 1 else 0)"
    using r ce es by (simp add: clients_created_append)
  ultimately show ?thesis using f r c1 old False by auto
qed

lemma run_ops_inv:
  assumes "run_ops ops xs (self, tr) = (self', tr')"
  shows "ds_region self' = ds_region self
       \<and> ds_transform self' = ds_transform self
       \<and> ds_get_dataset_objects self' = ds_get_dataset_objects self
       \<and> (\<forall>c. ds_client self = Some c \<longrightarrow> ds_client self' = Some c)
       \<and> fst (get_client self' tr') = fst (get_client self tr)
       \<and> clients_created tr' + (if ds_client self' = None then 1 else 0) =
           clients_created tr + (if ds_client self = None then 1 else 0)
       \<and> (ds_client self' = None) = (ds_client self = None \<and> (\<forall>x\<in>set xs. x = ReadRegion))"
  using assms
proof (induction xs arbitrary: self tr)
  case Nil
  then show ?case by simp
next
  case (Cons x xs)
  obtain selfm trm where m: "run_op ops x (self, tr) = (selfm, trm)"
    by (cases "run_op ops x (self, tr)") auto
  with Cons.prems have "run_ops ops xs (selfm, trm) = (self', tr')" by simp
  from Cons.IH [OF this] run_op_inv [OF m] show ?case by auto
qed


text \<open>
  Claim C3.  A dataset is constructed without a client.  Whatever operations follow
  (calls of \<^verbatim>\<open>__iter__\<close>, full traversals, client accesses, reads of the region, direct
  calls of \<^verbatim>\<open>_get_transformed_object\<close>), the client is created by the first operation
  that needs one (any operation other than reading the region), at most one client is
  ever created for the dataset, and every client access afterwards returns that same
  handle.
\<close>

theorem one_client_handle:
  assumes "run_ops ops xs (S3IterableDataset_init rgn g transform, tr) = (self1, tr1)"
      and "run_ops ops xs' (self1, tr1) = (self2, tr2)"
  shows "ds_client (S3IterableDataset_init rgn g transform) = None
       \<and> (ds_client self1 = None) = (\<forall>x\<in>set xs. x = ReadRegion)
       \<and> clients_created tr1 = clients_created tr + (if \<forall>x\<in>set xs. x = ReadRegion then 0 else 1)
       \<and> clients_created tr2 \<le> clients_created tr + 1
       \<and> fst (get_client self2 tr2) = fst (get_client self1 tr1)
       \<and> (\<forall>c. ds_client self1 = Some c \<longrightarrow> ds_client self2 = Some c)"
proof -
  have n: "ds_client (S3IterableDataset_init rgn g transform) = None"
    by (simp add: S3IterableDataset_init_def)
  from run_ops_inv [OF assms(1)] n
  have a: "(ds_client self1 = None) = (\<forall>x\<in>set xs. x = ReadRegion)"
    and b: "clients_created tr1 + (if ds_client self1 = None then 1 else 0) = clients_created tr + 1"
    by (auto split: if_splits)
  from run_ops_inv [OF assms(2)]
  have c: "fst (get_client self2 tr2) = fst (get_client self1 tr1)"
    and d: "\<forall>c. ds_client self1 = Some c \<longrightarrow> ds_client self2 = Some c"
    and e: "clients_created tr2 + (if ds_client self2 = None then 1 else 0) =
            clients_created tr1 + (if ds_client self1 = None then 1 else 0)"
    by (auto split: if_splits)
  from a b have "clients_created tr1 = clients_created tr + (if \<forall>x\<in>set xs. x = ReadRegion then 0 else 1)"
    by (auto split: if_splits)
  moreover from b e have "clients_created tr2 \<le> clients_created tr + 1"
    by (auto split: if_splits)
  ultimately show ?thesis using n a c d by blast
qed

theorem one_client_handle_witness:
  "\<exists>self1 tr1 self2 tr2.
     run_ops demo_ops [ReadRegion, Traverse demo_store, GetClient] (demo_dataset, []) = (self1, tr1)
   \<and> run_ops demo_ops [Traverse demo_store, GetTransformedObject (S3BucketKey ''b'' ''b.bin'') demo_store,
                        CallIter demo_store] (self1, tr1) = (self2, tr2)
   \<and> ds_client demo_dataset = None
   \<and> ds_client self1 \<noteq> None
   \<and> clients_created tr1 = 1
   \<and> clients_created tr2 \<le> 1
   \<and> fst (get_client self2 tr2) = fst (get_client self1 tr1)"
proof -
  let ?xs = "[ReadRegion, Traverse demo_store, GetClient]"
  let ?xs' = "[Traverse demo_store, GetTransformedObject (S3BucketKey ''b'' ''b.bin'') demo_store,
               CallIter demo_store]"
  obtain self1 tr1 where r1: "run_ops demo_ops ?xs (demo_dataset, []) = (self1, tr1)"
    by (cases "run_ops demo_ops ?xs (demo_dataset, [])") auto
  obtain self2 tr2 where r2: "run_ops demo_ops ?xs' (self1, tr1) = (self2, tr2)"
    by (cases "run_ops demo_ops ?xs' (self1, tr1)") auto
  from one_client_handle [OF r1 [unfolded demo_dataset_def] r2]
  have "ds_client demo_dataset = None \<and> ds_client self1 \<noteq> None \<and> clients_created tr1 = 1
      \<and> clients_created tr2 \<le> 1 \<and> fst (get_client self2 tr2) = fst (get_client self1 tr1)"
    by (simp add: demo_dataset_def clients_created_Nil)
  with r1 r2 show ?thesis by blast
qed

text \<open>
  Claim C10.  No sequence of operations changes the region, the transform or the
  selection callable of a dataset.  The client attribute is the only one that can change:
  once it holds a handle it keeps that handle, and if it changes at all it changes from
  \<open>None\<close> to the handle that a client access in the initial state returns.
\<close>

theorem configuration_unchanged:
  assumes "run_ops ops xs (self, tr) = (self', tr')"
  shows "region self' = region self
       \<and> ds_region self' = ds_region self
       \<and> ds_transform self' = ds_transform self
       \<and> ds_get_dataset_objects self' = ds_get_dataset_objects self
       \<and> (\<forall>c. ds_client self = Some c \<longrightarrow> ds_client self' = Some c)
       \<and> (ds_client self' = ds_client self
            \<or> ds_client self = None \<and> ds_client self' = Some (fst (get_client self tr)))"
proof -
  note inv = run_ops_inv [OF assms]
  have "ds_client self' = ds_client self
        \<or> ds_client self = None \<and> ds_client self' = Some (fst (get_client self tr))"
  proof (cases "ds_client self'")
    case None
    with inv show ?thesis by simp
  next
    case (Some c')
    then have "fst (get_client self' tr') = c'" by (simp add: get_client_Some)
    with inv have "fst (get_client self tr) = c'" by simp
    with Some inv show ?thesis by (cases "ds_client self") auto
  qed
  with inv show ?thesis by (simp add: region_def)
qed

theorem configuration_unchanged_witness:
  "\<exists>self' tr'.
     run_ops demo_ops [Traverse demo_store, ReadRegion, GetClient, Traverse demo_store]
       (demo_dataset, []) = (self', tr')
   \<and> region self' = ''us-east-1''
   \<and> ds_transform self' = identity
   \<and> ds_get_dataset_objects self' =
        get_objects_from_uris (Seq [''s3://b/a.bin'', ''s3://b/b.bin'', ''s3://b/a.bin''])
   \<and> (ds_client self' = None \<or> ds_client self' = Some demo_client)"
proof -
  let ?xs = "[Traverse demo_store, ReadRegion, GetClient, Traverse demo_store]"
  obtain self' tr' where r: "run_ops demo_ops ?xs (demo_dataset, []) = (self', tr')"
    by (cases "run_ops demo_ops ?xs (demo_dataset, [])") auto
  have "fst (get_client demo_dataset []) = demo_client"
    by (simp add: run_defs demo_defs)
  with configuration_unchanged [OF r]
  have "region self' = ''us-east-1'' \<and> ds_transform self' = identity
      \<and> ds_get_dataset_objects self' =
          get_objects_from_uris (Seq [''s3://b/a.bin'', ''s3://b/b.bin'', ''s3://b/a.bin''])
      \<and> (ds_client self' = None \<or> ds_client self' = Some demo_client)"
    by (auto simp: demo_dataset_def S3IterableDataset_init_def region_def)
  with r show ?thesis by blast
qed


section \<open>Failures during a traversal\<close>

lemma item_ok_fetch_ok:
  "item_of ops tf c s bk = Inr y \<Longrightarrow> \<exists>r. fetch ops c s bk = Inr r \<and> tf r = Inr y"
  by (auto simp: item_of_def split: sum.splits)

lemma calls_fetched: "fetched (concat (map (call_events ops c s) bks)) = bks"
  by (induction bks) (simp_all add: fetched_append call_events_obs)

lemma calls_transformed:
  "\<forall>x\<in>set bks. \<exists>y. item_of ops tf c s x = Inr y \<Longrightarrow>
   transformed (concat (map (call_events ops c s) bks)) = bks"
  by (induction bks)
     (auto simp: transformed_append call_events_transformed dest!: item_ok_fetch_ok)

lemma walk_fail_at:
  assumes "\<forall>x\<in>set pre. \<exists>y. item_of ops tf c s x = Inr y"
      and "item_of ops tf c s bk = Inl e"
  shows "walk ops tf c s (pre @ bk # post) fin =
           (map (projr \<circ> item_of ops tf c s) pre, Raised e,
            concat (map (call_events ops c s) pre) @ call_events ops c s bk)"
  using assms(2) by (simp add: walk_ok_prefix [OF assms(1)])

lemma iterate_fail_at:
  assumes "iter_ds s self tr = (Inr it, self1, tr1)"
      and "ds_client self1 = Some c"
      and "it s = Pulled ls (pre @ bk # post) fin"
      and "\<forall>x\<in>set pre. \<exists>y. item_of ops (ds_transform self) c s x = Inr y"
      and "item_of ops (ds_transform self) c s bk = Inl e"
  shows "iterate ops s self tr =
           (map (projr \<circ> item_of ops (ds_transform self) c s) pre, Raised e, self1,
            tr1 @ (map (\<lambda>(b, p). ListObjectsCalled b p) ls
                   @ concat (map (call_events ops c s) pre) @ call_events ops c s bk))"
  by (simp add: iterate_after_iter [OF assms(1,2,3)] walk_fail_at [OF assms(4,5)])

text \<open>
  Claim C7, as stated: a fetch that fails with a transient error is retried up to three
  times before the error is surfaced.  The dataset does not do this.  In the run below
  the store answers the second object with a transient error: \<^verbatim>\<open>get_object\<close> is called
  once for it, and the traversal ends with that error.
\<close>

theorem retry_counterexample:
  "iterate demo_ops demo_store flaky_dataset [] =
     ([Object ''0123456789''], Raised TransientFetchError,
      flaky_dataset\<lparr>ds_client := Some demo_client\<rparr>,
      [ClientCreated ''us-east-1'',
       GetObjectCalled (S3BucketKey ''b'' ''a.bin''), GetObjectDone (S3BucketKey ''b'' ''a.bin''),
       TransformCalled (S3BucketKey ''b'' ''a.bin''),
       GetObjectCalled (S3BucketKey ''b'' ''flaky.bin''),
       GetObjectDone (S3BucketKey ''b'' ''flaky.bin'')])
   \<and> count_list
        (fetched (snd (snd (snd (iterate demo_ops demo_store flaky_dataset [])))))
        (S3BucketKey ''b'' ''flaky.bin'') = 1"
  by (simp add: run_defs demo_defs)

text \<open>
  Claim C7, amended.  A fetch that fails, with a transient error or any other, is not
  retried by the dataset.  When the objects before \<open>bk\<close> are fetched and transformed and
  \<^verbatim>\<open>get_object\<close> raises \<open>e\<close> for \<open>bk\<close>, the traversal emits the items of the
  earlier objects and ends with \<open>e\<close> itself; \<^verbatim>\<open>get_object\<close> has been called once
  for each earlier object and once for \<open>bk\<close>, and not for any later object.
\<close>

theorem fetch_failure_surfaces_at_once:
  assumes "iter_ds s self tr = (Inr it, self1, tr1)"
      and "ds_client self1 = Some c"
      and "it s = Pulled ls (pre @ bk # post) fin"
      and "\<forall>x\<in>set pre. \<exists>y. item_of ops (ds_transform self) c s x = Inr y"
      and "fetch ops c s bk = Inl e"
  shows "\<exists>ys es. iterate ops s self tr = (ys, Raised e, self1, tr1 @ es)
           \<and> map Inr ys = map (item_of ops (ds_transform self) c s) pre
           \<and> fetched es = pre @ [bk]
           \<and> transformed es = pre"
proof -
  let ?f = "item_of ops (ds_transform self) c s"
  let ?es = "map (\<lambda>(b, p). ListObjectsCalled b p) ls
             @ concat (map (call_events ops c s) pre) @ call_events ops c s bk"
  have bad: "?f bk = Inl e" using assms(5) by (simp add: item_of_def)
  have run: "iterate ops s self tr = (map (projr \<circ> ?f) pre, Raised e, self1, tr1 @ ?es)"
    using assms(1-4) bad by (rule iterate_fail_at)
  have items: "map Inr (map (projr \<circ> ?f) pre) = map ?f pre"
    using assms(4) by (rule map_Inr_projr)
  have f: "fetched ?es = pre @ [bk]"
    by (simp add: fetched_append list_events_obs calls_fetched call_events_obs)
  have t: "transformed ?es = pre"
    using assms(5)
    by (simp add: transformed_append list_events_obs calls_transformed [OF assms(4)]
          call_events_transformed)
  from run items f t show ?thesis by blast
qed

lemma flaky_iter:
  "iter_ds demo_store flaky_dataset [] =
     (Inr (\<lambda>s'. Pulled []
             ([S3BucketKey ''b'' ''a.bin''] @ S3BucketKey ''b'' ''flaky.bin''
                # [S3BucketKey ''b'' ''b.bin'']) None),
      flaky_dataset\<lparr>ds_client := Some demo_client\<rparr>, [ClientCreated ''us-east-1''])"
  by (simp add: run_defs demo_defs)

theorem fetch_failure_surfaces_at_once_witness:
  "\<exists>es. iterate demo_ops demo_store flaky_dataset [] =
          ([Object ''0123456789''], Raised TransientFetchError,
           flaky_dataset\<lparr>ds_client := Some demo_client\<rparr>, [ClientCreated ''us-east-1''] @ es)
        \<and> fetched es = [S3BucketKey ''b'' ''a.bin'', S3BucketKey ''b'' ''flaky.bin'']
        \<and> transformed es = [S3BucketKey ''b'' ''a.bin'']"
proof -
  have h2: "ds_client (flaky_dataset\<lparr>ds_client := Some demo_client\<rparr>) = Some demo_client"
    by simp
  have h3: "(\<lambda>s'. Pulled [] ([S3BucketKey ''b'' ''a.bin''] @ S3BucketKey ''b'' ''flaky.bin''
                # [S3BucketKey ''b'' ''b.bin'']) None) demo_store
            = Pulled [] ([S3BucketKey ''b'' ''a.bin''] @ S3BucketKey ''b'' ''flaky.bin''
                # [S3BucketKey ''b'' ''b.bin'']) None"
    by simp
  have h4: "\<forall>x\<in>set [S3BucketKey ''b'' ''a.bin''].
              \<exists>y. item_of demo_ops (ds_transform flaky_dataset) demo_client demo_store x = Inr y"
    by (simp add: item_of_def fetch_def demo_defs)
  have h5: "fetch demo_ops demo_client demo_store (S3BucketKey ''b'' ''flaky.bin'')
              = Inl TransientFetchError"
    by (simp add: fetch_def demo_defs)
  have items: "map (item_of demo_ops (ds_transform flaky_dataset) demo_client demo_store)
                 [S3BucketKey ''b'' ''a.bin''] = [Inr (Object ''0123456789'')]"
    by (simp add: item_of_def fetch_def demo_defs)
  from fetch_failure_surfaces_at_once [OF flaky_iter h2 h3 h4 h5, unfolded items]
  obtain ys es where
    "iterate demo_ops demo_store flaky_dataset [] =
       (ys, Raised TransientFetchError, flaky_dataset\<lparr>ds_client := Some demo_client\<rparr>,
        [ClientCreated ''us-east-1''] @ es)"
    and "map (Inr :: (string, nat) item \<Rightarrow> exn + (string, nat) item) ys = [Inr (Object ''0123456789'')]"
    and "fetched es = [S3BucketKey ''b'' ''a.bin''] @ [S3BucketKey ''b'' ''flaky.bin'']"
    and "transformed es = [S3BucketKey ''b'' ''a.bin'']"
    by (elim exE conjE)
  then show ?thesis by (auto simp: map_eq_Cons_conv)
qed

text \<open>
  Claim C9, as stated: a transform that raises ends the iteration with a transform-failure
  error that carries the identifier of the object and the cause.  The dataset wraps
  nothing: in the run below the transform raises on the second object and the traversal
  ends with the exception of the transform itself.
\<close>

theorem transform_failure_counterexample:
  "iterate demo_ops demo_store measuring_dataset [] =
     ([Value 10], Raised (UserError ''boom''),
      measuring_dataset\<lparr>ds_client := Some demo_client\<rparr>,
      [ClientCreated ''us-east-1'',
       GetObjectCalled (S3BucketKey ''b'' ''a.bin''), GetObjectDone (S3BucketKey ''b'' ''a.bin''),
       TransformCalled (S3BucketKey ''b'' ''a.bin''),
       GetObjectCalled (S3BucketKey ''b'' ''b.bin''), GetObjectDone (S3BucketKey ''b'' ''b.bin''),
       TransformCalled (S3BucketKey ''b'' ''b.bin'')])
   \<and> fst (snd (iterate demo_ops demo_store measuring_dataset []))
       \<noteq> Raised (TransformFailed (S3BucketKey ''b'' ''b.bin'') (UserError ''boom''))"
  by (simp add: run_defs demo_defs)

text \<open>
  Claim C9, amended.  When the objects before \<open>bk\<close> are fetched and transformed and the
  transform raises \<open>e\<close> on the object fetched for \<open>bk\<close>, the traversal emits the
  items of the earlier objects and ends at once with \<open>e\<close>, as the transform raised it.
  The transform has been called once on each earlier object and once on that of \<open>bk\<close>
  (it is not retried), and no later object is fetched or emitted.
\<close>

theorem transform_failure_ends_traversal:
  assumes "iter_ds s self tr = (Inr it, self1, tr1)"
      and "ds_client self1 = Some c"
      and "it s = Pulled ls (pre @ bk # post) fin"
      and "\<forall>x\<in>set pre. \<exists>y. item_of ops (ds_transform self) c s x = Inr y"
      and "fetch ops c s bk = Inr r"
      and "ds_transform self r = Inl e"
  shows "\<exists>ys es. iterate ops s self tr = (ys, Raised e, self1, tr1 @ es)
           \<and> map Inr ys = map (item_of ops (ds_transform self) c s) pre
           \<and> fetched es = pre @ [bk]
           \<and> transformed es = pre @ [bk]"
proof -
  let ?f = "item_of ops (ds_transform self) c s"
  let ?es = "map (\<lambda>(b, p). ListObjectsCalled b p) ls
             @ concat (map (call_events ops c s) pre) @ call_events ops c s bk"
  have bad: "?f bk = Inl e" using assms(5,6) by (simp add: item_of_def)
  have run: "iterate ops s self tr = (map (projr \<circ> ?f) pre, Raised e, self1, tr1 @ ?es)"
    using assms(1-4) bad by (rule iterate_fail_at)
  have items: "map Inr (map (projr \<circ> ?f) pre) = map ?f pre"
    using assms(4) by (rule map_Inr_projr)
  have f: "fetched ?es = pre @ [bk]"
    by (simp add: fetched_append list_events_obs calls_fetched call_events_obs)
  have t: "transformed ?es = pre @ [bk]"
    using assms(5)
    by (simp add: transformed_append list_events_obs calls_transformed [OF assms(4)]
          call_events_transformed)
  from run items f t show ?thesis by blast
qed


lemma measuring_iter:
  "iter_ds demo_store measuring_dataset [] =
     (Inr (\<lambda>s'. Pulled []
             ([S3BucketKey ''b'' ''a.bin''] @ S3BucketKey ''b'' ''b.bin''
                # [S3BucketKey ''b'' ''a.bin'']) None),
      measuring_dataset\<lparr>ds_client := Some demo_client\<rparr>, [ClientCreated ''us-east-1''])"
  by (simp add: run_defs demo_defs)

theorem transform_failure_ends_traversal_witness:
  "\<exists>es. iterate demo_ops demo_store measuring_dataset [] =
          ([Value 10], Raised (UserError ''boom''),
           measuring_dataset\<lparr>ds_client := Some demo_client\<rparr>, [ClientCreated ''us-east-1''] @ es)
        \<and> fetched es = [S3BucketKey ''b'' ''a.bin'', S3BucketKey ''b'' ''b.bin'']
        \<and> transformed es = [S3BucketKey ''b'' ''a.bin'', S3BucketKey ''b'' ''b.bin'']"
proof -
  have h2: "ds_client (measuring_dataset\<lparr>ds_client := Some demo_client\<rparr>) = Some demo_client"
    by simp
  have h3: "(\<lambda>s'. Pulled [] ([S3BucketKey ''b'' ''a.bin''] @ S3BucketKey ''b'' ''b.bin''
                # [S3BucketKey ''b'' ''a.bin'']) None) demo_store
            = Pulled [] ([S3BucketKey ''b'' ''a.bin''] @ S3BucketKey ''b'' ''b.bin''
                # [S3BucketKey ''b'' ''a.bin'']) None"
    by simp
  have h4: "\<forall>x\<in>set [S3BucketKey ''b'' ''a.bin''].
              \<exists>y. item_of demo_ops (ds_transform measuring_dataset) demo_client demo_store x = Inr y"
    by (simp add: item_of_def fetch_def demo_defs)
  have h5: "fetch demo_ops demo_client demo_store (S3BucketKey ''b'' ''b.bin'') = Inr ''abcdefghij''"
    by (simp add: fetch_def demo_defs)
  have h6: "ds_transform measuring_dataset ''abcdefghij'' = Inl (UserError ''boom'')"
    by (simp add: demo_defs)
  have items: "map (item_of demo_ops (ds_transform measuring_dataset) demo_client demo_store)
                 [S3BucketKey ''b'' ''a.bin''] = [Inr (Value 10)]"
    by (simp add: item_of_def fetch_def demo_defs)
  from transform_failure_ends_traversal [OF measuring_iter h2 h3 h4 h5 h6, unfolded items]
  obtain ys es where
    "iterate demo_ops demo_store measuring_dataset [] =
       (ys, Raised (UserError ''boom''), measuring_dataset\<lparr>ds_client := Some demo_client\<rparr>,
        [ClientCreated ''us-east-1''] @ es)"
    and "map (Inr :: (string, nat) item \<Rightarrow> exn + (string, nat) item) ys = [Inr (Value 10)]"
    and "fetched es = [S3BucketKey ''b'' ''a.bin''] @ [S3BucketKey ''b'' ''b.bin'']"
    and "transformed es = [S3BucketKey ''b'' ''a.bin''] @ [S3BucketKey ''b'' ''b.bin'']"
    by (elim exE conjE)
  then show ?thesis by (auto simp: map_eq_Cons_conv)
qed


section \<open>Fetches in flight\<close>

lemma sequential_append:
  assumes "in_flight 0 a = 0"
      and "\<forall>n. in_flight 0 (take n a) \<le> Suc 0"
      and "\<forall>n. in_flight 0 (take n b) \<le> Suc 0"
  shows "\<forall>n. in_flight 0 (take n (a @ b)) \<le> Suc 0"
proof
  fix n
  show "in_flight 0 (take n (a @ b)) \<le> Suc 0"
  proof (cases "n < length a")
    case True
    with assms(2) show ?thesis by simp
  next
    case False
    with assms(1,3) show ?thesis by (simp add: in_flight_append)
  qed
qed

lemma call_events_sequential:
  "in_flight 0 (take n (call_events ops c s bk)) \<le> Suc 0"
  by (simp add: call_events_def take_Cons split: sum.splits nat.splits)

lemma list_events_sequential:
  "in_flight 0 (take n (map (\<lambda>(b, p). ListObjectsCalled b p) ls)) = 0"
  by (simp add: take_map list_events_in_flight)

lemma walk_sequential:
  "walk ops tf c s bks fin = (ys, out, es) \<Longrightarrow>
   in_flight 0 es = 0 \<and> (\<forall>n. in_flight 0 (take n es) \<le> Suc 0)"
proof (induction bks arbitrary: ys out es)
  case Nil
  then show ?case by simp
next
  case (Cons bk bks)
  show ?case
  proof (cases "item_of ops tf c s bk")
    case (Inl e)
    with Cons.prems show ?thesis
      by (auto simp: call_events_obs call_events_sequential)
  next
    case (Inr y)
    obtain ys' out' es' where w: "walk ops tf c s bks fin = (ys', out', es')"
      by (cases "walk ops tf c s bks fin") auto
    with Cons.prems Inr have es: "es = call_events ops c s bk @ es'" by simp
    from Cons.IH [OF w] have ih: "in_flight 0 es' = 0" "\<forall>n. in_flight 0 (take n es') \<le> Suc 0"
      by simp_all
    have "\<forall>n. in_flight 0 (take n (call_events ops c s bk @ es')) \<le> Suc 0"
      by (rule sequential_append) (simp_all add: call_events_obs call_events_sequential ih)
    with es ih show ?thesis by (simp add: in_flight_append call_events_obs)
  qed
qed

lemma consumed_events_sequential:
  "in_flight 0 (take n (map IteratorConsumed as)) = 0"
  by (simp add: take_map consumed_events_in_flight)

lemma traversal_sequential:
  assumes "traversal ops self c s tr = (ys, out, es)"
  shows "in_flight 0 es = 0 \<and> (\<forall>n. in_flight 0 (take n es) \<le> Suc 0)"
proof -
  obtain res consumed where sel: "ds_get_dataset_objects self c s tr = (res, consumed)"
    by (cases "ds_get_dataset_objects self c s tr") auto
  show ?thesis
  proof (cases res)
    case (Inl e)
    with assms sel show ?thesis
      by (auto simp: traversal_def consumed_events_in_flight consumed_events_sequential)
  next
    case (Inr it)
    obtain ls bks fin where p: "it s = Pulled ls bks fin" by (cases "it s") auto
    obtain ys' out' es' where w: "walk ops (ds_transform self) c s bks fin = (ys', out', es')"
      by (cases "walk ops (ds_transform self) c s bks fin") auto
    let ?l = "map (\<lambda>(b, p). ListObjectsCalled b p) ls"
    from assms sel Inr p w have es: "es = map IteratorConsumed consumed @ ?l @ es'"
      by (simp add: traversal_def)
    note ws = walk_sequential [OF w]
    have l: "\<forall>n. in_flight 0 (take n (?l @ es')) \<le> Suc 0"
      by (rule sequential_append) (simp_all add: list_events_in_flight list_events_sequential ws)
    have "\<forall>n. in_flight 0 (take n (map IteratorConsumed consumed @ ?l @ es')) \<le> Suc 0"
      by (rule sequential_append [OF _ _ l])
         (simp_all add: consumed_events_in_flight consumed_events_sequential)
    with es ws show ?thesis
      by (simp add: in_flight_append list_events_in_flight consumed_events_in_flight)
  qed
qed

text \<open>
  Claim C8.  The dataset has no window setting and fetches one object at a time: each
  call of \<^verbatim>\<open>get_object\<close> has returned (or raised) before the next identifier is taken.
  So after every prefix of the events of a traversal at most one \<^verbatim>\<open>get_object\<close> call is
  open, which is within every window \<open>W\<close> of at least one, the default of eight
  included.
\<close>

theorem fetches_in_flight_bounded:
  assumes "iterate ops s self tr = (ys, out, self1, tr1)"
      and "1 \<le> W"
  shows "\<exists>es. tr1 = tr @ es \<and> (\<forall>n. in_flight 0 (take n es) \<le> W)"
proof -
  obtain c selfA trA where g: "get_client self tr = (c, selfA, trA)"
    by (cases "get_client self tr") auto
  obtain ys' out' es where t: "traversal ops self c s trA = (ys', out', es)"
    by (cases "traversal ops self c s trA") auto
  from assms(1) iterate_traversal [OF g, of ops s] t have tr1: "tr1 = trA @ es" by simp
  from get_client_trace [OF g] obtain ce where
    ce: "trA = tr @ ce" "\<forall>n. in_flight n ce = n" by blast
  have "ce = [] \<or> (\<exists>e. ce = [e])"
    using g ce(1) by (cases "ds_client self") (auto simp: get_client_def Let_def)
  then have cs: "\<forall>n. in_flight 0 (take n ce) \<le> Suc 0"
  proof
    assume "ce = []" then show ?thesis by simp
  next
    assume "\<exists>e. ce = [e]"
    then obtain e where e: "ce = [e]" by blast
    with ce(2) have "in_flight 0 [e] = 0" by simp
    with e show ?thesis by (auto simp: take_Cons split: nat.splits)
  qed
  have "\<forall>n. in_flight 0 (take n (ce @ es)) \<le> Suc 0"
    using ce(2) cs traversal_sequential [OF t] by (intro sequential_append) simp_all
  then have "\<forall>n. in_flight 0 (take n (ce @ es)) \<le> W"
    using assms(2) by (auto intro: le_trans)
  moreover have "tr1 = tr @ (ce @ es)" using tr1 ce(1) by simp
  ultimately show ?thesis by blast
qed

theorem fetches_in_flight_bounded_witness:
  "\<exists>es. iterate demo_ops demo_store demo_dataset [] =
          ([Object ''0123456789'', Object ''abcdefghij'', Object ''0123456789''], Exhausted,
           demo_dataset\<lparr>ds_client := Some demo_client\<rparr>, [] @ es)
        \<and> fetched es = demo_ids
        \<and> (\<forall>n. in_flight 0 (take n es) \<le> 8)"
proof -
  have "(1::nat) \<le> 8" by simp
  from fetches_in_flight_bounded [OF demo_run this]
  obtain es where es: "demo_trace = [] @ es" and b: "\<forall>n. in_flight 0 (take n es) \<le> 8"
    by (elim exE conjE)
  from es have f: "fetched es = demo_ids" by (auto simp: demo_ids_def demo_trace_def)
  from demo_run es have "iterate demo_ops demo_store demo_dataset [] =
          ([Object ''0123456789'', Object ''abcdefghij'', Object ''0123456789''], Exhausted,
           demo_dataset\<lparr>ds_client := Some demo_client\<rparr>, [] @ es)"
    by simp
  with f b show ?thesis by (intro exI [where x = es] conjI)
qed


section \<open>The default transform\<close>

lemma item_of_identity:
  "item_of ops identity c s bk =
     (case fetch ops c s bk of Inl e \<Rightarrow> Inl e | Inr r \<Rightarrow> Inr (Object r))"
  by (simp add: item_of_def identity_def split: sum.splits)

lemma walk_identity:
  fixes ys :: "('r, 'a) item list" and ops :: "('s, 'r) S3ClientOps"
  shows "walk ops identity c s bks fin = (ys, out, es) \<Longrightarrow>
   \<exists>rs. ys = map Object rs \<and> length rs \<le> length bks
      \<and> map Inr rs = map (fetch ops c s) (take (length rs) bks)"
proof (induction bks arbitrary: ys out es)
  case Nil
  then show ?case by simp
next
  case (Cons bk bks)
  show ?case
  proof (cases "fetch ops c s bk")
    case (Inl e)
    with Cons.prems have "ys = []" by (simp add: item_of_identity)
    then show ?thesis by simp
  next
    case (Inr r)
    obtain ys' :: "('r, 'a) item list" and out' es'
      where w: "walk ops identity c s bks fin = (ys', out', es')"
      by (cases "walk ops (identity :: 'r \<Rightarrow> exn + ('r, 'a) item) c s bks fin") auto
    with Cons.prems Inr have ys: "ys = Object r # ys'" by (simp add: item_of_identity)
    from Cons.IH [OF w] obtain rs where
      rs: "ys' = map Object rs" "length rs \<le> length bks"
        "map Inr rs = map (fetch ops c s) (take (length rs) bks)"
      by blast
    show ?thesis
      by (rule exI [where x = "r # rs"]) (simp add: ys rs Inr)
  qed
qed

lemma walk_complete:
  assumes "\<forall>x\<in>set bks. \<exists>y. item_of ops tf c s x = Inr y"
      and "walk ops tf c s bks None = (ys, out, es)"
  shows "length ys = length bks \<and> out = Exhausted"
  using assms(2) walk_ok_prefix [OF assms(1), of "[]" None] by auto

lemma constructed_default:
  assumes "self0 = S3IterableDataset_init rgn g None
           \<or> from_objects object_uris rgn None tr00 = (Inr self0, tr01)
           \<or> from_prefix ops s3_uri rgn None tr00 = (Inr self0, tr01)"
  shows "ds_transform self0 = identity"
  using assms by (auto simp: S3IterableDataset_init_def from_objects_def from_prefix_def)

text \<open>
  Claim C5.  A dataset constructed without a transform, by \<^verbatim>\<open>__init__\<close>,
  \<^verbatim>\<open>from_objects\<close> or \<^verbatim>\<open>from_prefix\<close>, has the transform \<open>identity\<close>, and keeps
  it whatever operations follow.  A traversal of it emits the objects that
  \<^verbatim>\<open>get_object\<close> returned, unchanged and in order: the \<open>i\<close>-th item is the object
  fetched for the \<open>i\<close>-th identifier.  When no listing or fetch fails, there is one such
  item for every identifier.
\<close>

theorem default_transform_identity:
  fixes self0 :: "('s, 'r, ('r, 'a) item) S3IterableDataset"
  assumes "self0 = S3IterableDataset_init rgn g None
           \<or> from_objects object_uris rgn None tr00 = (Inr self0, tr01)
           \<or> from_prefix ops s3_uri rgn None tr00 = (Inr self0, tr01)"
      and "run_ops ops xs (self0, tr0) = (self, tr)"
      and "get_client self tr = (c, self1, tr1)"
      and "ds_get_dataset_objects self c s tr1 = (Inr it, consumed)"
      and "iterate ops s self tr = (ys, out, self', tr')"
  shows "ds_transform self = identity
       \<and> (\<exists>rs. ys = map Object rs
              \<and> length rs \<le> length (yielded (it s))
              \<and> map Inr rs = map (fetch ops c s) (take (length rs) (yielded (it s))))
       \<and> ((\<forall>bk\<in>set (yielded (it s)). \<exists>r. fetch ops c s bk = Inr r) \<and> failure (it s) = None
            \<longrightarrow> length ys = length (yielded (it s)) \<and> out = Exhausted)"
proof -
  have tf: "ds_transform self = identity"
    using run_ops_inv [OF assms(2)] constructed_default [OF assms(1)] by simp
  obtain ls bks fin where p: "it s = Pulled ls bks fin" by (cases "it s") auto
  obtain ys' :: "('r, 'a) item list" and out' es
    where w: "walk ops identity c s bks fin = (ys', out', es)"
    by (cases "walk ops (identity :: 'r \<Rightarrow> exn + ('r, 'a) item) c s bks fin") auto
  from assms(5) have e: "ys' = ys" "out' = out"
    by (simp_all add: iterate_traversal [OF assms(3)] traversal_def assms(4) p tf w)
  have "(\<forall>bk\<in>set bks. \<exists>r. fetch ops c s bk = Inr r) \<and> fin = None
          \<longrightarrow> length ys = length bks \<and> out = Exhausted"
  proof
    assume a: "(\<forall>bk\<in>set bks. \<exists>r. fetch ops c s bk = Inr r) \<and> fin = None"
    then have "\<forall>x\<in>set bks.
                 \<exists>y. item_of ops (identity :: 'r \<Rightarrow> exn + ('r, 'a) item) c s x = Inr y"
      by (auto simp: item_of_identity)
    from walk_complete [OF this] w a e show "length ys = length bks \<and> out = Exhausted" by simp
  qed
  with walk_identity [OF w] e tf p show ?thesis by simp
qed

theorem default_transform_identity_witness:
  "\<exists>self tr ys out self' tr'.
     from_objects (Seq [''s3://b/a.bin'', ''s3://b/b.bin'', ''s3://b/a.bin'']) ''us-east-1'' None []
       = (Inr demo_dataset, [])
   \<and> run_ops demo_ops [Traverse demo_store] (demo_dataset, []) = (self, tr)
   \<and> iterate demo_ops demo_store self tr = (ys, out, self', tr')
   \<and> ds_transform self = identity
   \<and> ys = [Object ''0123456789'', Object ''abcdefghij'', Object ''0123456789'']
   \<and> out = Exhausted"
proof -
  let ?self = "demo_dataset\<lparr>ds_client := Some demo_client\<rparr>"
  have con: "from_objects (Seq [''s3://b/a.bin'', ''s3://b/b.bin'', ''s3://b/a.bin''])
               ''us-east-1'' None [] = (Inr demo_dataset, [])"
    by (simp add: demo_defs)
  have h1: "demo_dataset = S3IterableDataset_init ''us-east-1''
              (get_objects_from_uris (Seq [''s3://b/a.bin'', ''s3://b/b.bin'', ''s3://b/a.bin''])) None
            \<or> from_objects (Seq [''s3://b/a.bin'', ''s3://b/b.bin'', ''s3://b/a.bin''])
                 ''us-east-1'' None [] = (Inr demo_dataset, [])
            \<or> from_prefix demo_ops [] ''us-east-1'' None [] = (Inr demo_dataset, [])"
    using con by simp
  have r: "run_ops demo_ops [Traverse demo_store] (demo_dataset, []) = (?self, demo_trace)"
    using demo_run by simp
  have g: "get_client ?self demo_trace = (demo_client, ?self, demo_trace)"
    by (simp add: get_client_def)
  have sel: "ds_get_dataset_objects ?self demo_client demo_store demo_trace =
               (Inr (\<lambda>s'. Pulled [] demo_ids None), [])"
    by (simp add: demo_defs)
  obtain ys out self' tr' where
    it: "iterate demo_ops demo_store ?self demo_trace = (ys, out, self', tr')"
    by (cases "iterate demo_ops demo_store ?self demo_trace") auto
  have ok: "\<forall>bk\<in>set demo_ids. \<exists>r. fetch demo_ops demo_client demo_store bk = Inr r"
    by (simp add: fetch_def demo_defs)
  from default_transform_identity [OF h1 r g sel it] ok
  obtain rs where tf: "ds_transform ?self = identity"
    and ys: "ys = map Object rs"
    and rs: "map Inr rs = map (fetch demo_ops demo_client demo_store) (take (length rs) demo_ids)"
    and full: "length ys = length demo_ids" "out = Exhausted"
    by auto
  from ys full have "length rs = 3" by (simp add: demo_ids_def)
  with rs have "map (Inr :: string \<Rightarrow> exn + string) rs =
                  [Inr ''0123456789'', Inr ''abcdefghij'', Inr ''0123456789'']"
    by (simp add: fetch_def demo_defs)
  then have "rs = [''0123456789'', ''abcdefghij'', ''0123456789'']"
    by (auto simp: map_eq_Cons_conv)
  with ys have y: "ys = [Object ''0123456789'', Object ''abcdefghij'', Object ''0123456789'']"
    by simp
  show ?thesis
    by (rule exI [where x = ?self], rule exI [where x = demo_trace], rule exI [where x = ys],
        rule exI [where x = out], rule exI [where x = self'], rule exI [where x = tr'])
       (intro conjI con r it tf y full(2))
qed


section \<open>Construction from a prefix\<close>

lemma prefix_iter:
  assumes "parse_s3_uri s3_uri = Some (b, p)"
  shows "iter_ds s1 (S3IterableDataset_init rgn (get_objects_from_prefix ops s3_uri) tf) tr =
     (Inr (\<lambda>s'. case list_objects ops (S3Client (clients_created tr) rgn) b p s' of
                    Inl e \<Rightarrow> Pulled [(b, p)] [] (Some StoreUnavailable)
                  | Inr ks \<Rightarrow> Pulled [(b, p)] (map (S3BucketKey b) ks) None),
      (S3IterableDataset_init rgn (get_objects_from_prefix ops s3_uri) tf)
        \<lparr>ds_client := Some (S3Client (clients_created tr) rgn)\<rparr>,
      tr @ [ClientCreated rgn])"
  by (simp add: iter_ds_def get_client_def Let_def region_def S3IterableDataset_init_def
        get_objects_from_prefix_def assms)

lemma prefix_drain:
  assumes "ds_client self1 = Some c"
  shows "\<exists>ys out es.
     drain ops s2
       (\<lambda>s'. case list_objects ops c' b p s' of
                Inl e \<Rightarrow> Pulled [(b, p)] [] (Some StoreUnavailable)
              | Inr ks \<Rightarrow> Pulled [(b, p)] (map (S3BucketKey b) ks) None)
       self1 tr1 = (ys, out, self1, tr1 @ ListObjectsCalled b p # es)
     \<and> listed es = []"
proof (cases "list_objects ops c' b p s2")
  case (Inl e)
  then show ?thesis by (simp add: drain_def)
next
  case (Inr ks)
  obtain ys out es where
    w: "walk ops (ds_transform self1) c s2 (map (S3BucketKey b) ks) None = (ys, out, es)"
    by (cases "walk ops (ds_transform self1) c s2 (map (S3BucketKey b) ks) None") auto
  have l: "listed es = []" using walk_obs [OF w] by simp
  have "drain ops s2
       (\<lambda>s'. case list_objects ops c' b p s' of
                Inl e \<Rightarrow> Pulled [(b, p)] [] (Some StoreUnavailable)
              | Inr ks \<Rightarrow> Pulled [(b, p)] (map (S3BucketKey b) ks) None)
       self1 tr1 = (ys, out, self1, tr1 @ ListObjectsCalled b p # es)"
    by (simp add: drain_def Inr map_items_walk [OF assms] w)
  with l show ?thesis by (intro exI conjI)
qed


lemma prefix_inner:
  assumes "parse_s3_uri s3_uri = Some (b, p)"
  shows "\<exists>it. iter_ds s1 (S3IterableDataset_init rgn (get_objects_from_prefix ops s3_uri) tf) tr =
              (Inr it,
               (S3IterableDataset_init rgn (get_objects_from_prefix ops s3_uri) tf)
                 \<lparr>ds_client := Some (S3Client (clients_created tr) rgn)\<rparr>,
               tr @ [ClientCreated rgn])
           \<and> (\<forall>ks. list_objects ops (S3Client (clients_created tr) rgn) b p s2 = Inr ks \<longrightarrow>
                  it s2 = Pulled [(b, p)] (map (S3BucketKey b) ks) None)
           \<and> (\<exists>ys out es.
                  drain ops s2 it
                    ((S3IterableDataset_init rgn (get_objects_from_prefix ops s3_uri) tf)
                       \<lparr>ds_client := Some (S3Client (clients_created tr) rgn)\<rparr>)
                    (tr @ [ClientCreated rgn]) =
                    (ys, out,
                     (S3IterableDataset_init rgn (get_objects_from_prefix ops s3_uri) tf)
                       \<lparr>ds_client := Some (S3Client (clients_created tr) rgn)\<rparr>,
                     (tr @ [ClientCreated rgn]) @ ListObjectsCalled b p # es)
                \<and> listed es = [])"
proof -
  let ?self = "S3IterableDataset_init rgn (get_objects_from_prefix ops s3_uri) tf"
  let ?c = "S3Client (clients_created tr) rgn"
  let ?it = "\<lambda>s'. case list_objects ops ?c b p s' of
                    Inl e \<Rightarrow> Pulled [(b, p)] [] (Some StoreUnavailable)
                  | Inr ks \<Rightarrow> Pulled [(b, p)] (map (S3BucketKey b) ks) None"
  have i: "iter_ds s1 ?self tr = (Inr ?it, ?self\<lparr>ds_client := Some ?c\<rparr>, tr @ [ClientCreated rgn])"
    using assms by (rule prefix_iter)
  have l: "\<forall>ks. list_objects ops ?c b p s2 = Inr ks \<longrightarrow>
             ?it s2 = Pulled [(b, p)] (map (S3BucketKey b) ks) None"
    by simp
  have c1: "ds_client (?self\<lparr>ds_client := Some ?c\<rparr>) = Some ?c" by simp
  have d: "\<exists>ys out es.
          drain ops s2 ?it (?self\<lparr>ds_client := Some ?c\<rparr>) (tr @ [ClientCreated rgn]) =
            (ys, out, ?self\<lparr>ds_client := Some ?c\<rparr>,
             (tr @ [ClientCreated rgn]) @ ListObjectsCalled b p # es)
        \<and> listed es = []"
    by (rule prefix_drain [OF c1])
  show ?thesis
    by (rule exI [where x = ?it]) (intro conjI i l d)
qed

text \<open>
  Claim C6.  \<^verbatim>\<open>from_prefix\<close> returns a dataset and does nothing else: the trace after
  the construction is the trace before it (no listing call, no client created) and the
  dataset has no client.  For a well-formed URI, calling \<^verbatim>\<open>__iter__\<close> creates the
  client and still lists nothing, whatever the store \<open>s1\<close> holds at that moment; the
  listing call is the first thing that happens when the returned sequence is consumed,
  and it reads the store \<open>s2\<close> as it is then.
\<close>

theorem from_prefix_lists_on_consumption:
  "\<exists>self. from_prefix ops s3_uri rgn transform tr = (Inr self, tr)
     \<and> ds_client self = None
     \<and> (\<forall>b p. parse_s3_uri s3_uri = Some (b, p) \<longrightarrow>
          (\<exists>it. iter_ds s1 self tr =
                   (Inr it, self\<lparr>ds_client := Some (S3Client (clients_created tr) rgn)\<rparr>,
                    tr @ [ClientCreated rgn])
             \<and> (\<forall>ks. list_objects ops (S3Client (clients_created tr) rgn) b p s2 = Inr ks \<longrightarrow>
                    it s2 = Pulled [(b, p)] (map (S3BucketKey b) ks) None)
             \<and> (\<exists>ys out es.
                    drain ops s2 it (self\<lparr>ds_client := Some (S3Client (clients_created tr) rgn)\<rparr>)
                      (tr @ [ClientCreated rgn]) =
                      (ys, out, self\<lparr>ds_client := Some (S3Client (clients_created tr) rgn)\<rparr>,
                       (tr @ [ClientCreated rgn]) @ ListObjectsCalled b p # es)
                  \<and> listed es = [])))"
proof (rule exI [where x = "S3IterableDataset_init rgn (get_objects_from_prefix ops s3_uri)
                             (Some (case transform of None \<Rightarrow> identity | Some tf \<Rightarrow> tf))"],
       intro conjI allI impI)
  show "from_prefix ops s3_uri rgn transform tr =
          (Inr (S3IterableDataset_init rgn (get_objects_from_prefix ops s3_uri)
                  (Some (case transform of None \<Rightarrow> identity | Some tf \<Rightarrow> tf))), tr)"
    by (simp add: from_prefix_def)
  show "ds_client (S3IterableDataset_init rgn (get_objects_from_prefix ops s3_uri)
                     (Some (case transform of None \<Rightarrow> identity | Some tf \<Rightarrow> tf))) = None"
    by (simp add: S3IterableDataset_init_def)
qed (rule prefix_inner)


theorem from_prefix_lists_on_consumption_witness:
  "\<exists>self it ys out es.
     from_prefix demo_ops ''s3://b/data/'' ''us-east-1''
       (None :: (string \<Rightarrow> exn + (string, nat) item) option) [] = (Inr self, [])
   \<and> ds_client self = None
   \<and> iter_ds [] self [] =
         (Inr it, self\<lparr>ds_client := Some demo_client\<rparr>, [ClientCreated ''us-east-1''])
   \<and> it demo_store = Pulled [(''b'', ''data/'')] [S3BucketKey ''b'' ''data/x''] None
   \<and> drain demo_ops demo_store it (self\<lparr>ds_client := Some demo_client\<rparr>)
         [ClientCreated ''us-east-1''] =
         (ys, out, self\<lparr>ds_client := Some demo_client\<rparr>,
          [ClientCreated ''us-east-1''] @ ListObjectsCalled ''b'' ''data/'' # es)
   \<and> listed es = []"
proof -
  have parse: "parse_s3_uri ''s3://b/data/'' = Some (''b'', ''data/'')"
    by (simp add: parse_s3_uri_def)
  have cl: "S3Client (clients_created []) ''us-east-1'' = demo_client"
    by (simp add: demo_client_def clients_created_Nil)
  have ls: "list_objects demo_ops demo_client ''b'' ''data/'' demo_store = Inr [''data/x'']"
    by (simp add: demo_ops_def demo_store_def)
  from from_prefix_lists_on_consumption
         [of demo_ops "''s3://b/data/''" "''us-east-1''"
             "None :: (string \<Rightarrow> exn + (string, nat) item) option" "[]" "[]" demo_store,
          unfolded cl append_Nil]
  obtain self where
    a: "from_prefix demo_ops ''s3://b/data/'' ''us-east-1''
       (None :: (string \<Rightarrow> exn + (string, nat) item) option) [] = (Inr self, [])"
    and n: "ds_client self = None"
    and r: "\<forall>b p. parse_s3_uri ''s3://b/data/'' = Some (b, p) \<longrightarrow>
          (\<exists>it. iter_ds [] self [] =
                   (Inr it, self\<lparr>ds_client := Some demo_client\<rparr>, [ClientCreated ''us-east-1''])
             \<and> (\<forall>ks. list_objects demo_ops demo_client b p demo_store = Inr ks \<longrightarrow>
                    it demo_store = Pulled [(b, p)] (map (S3BucketKey b) ks) None)
             \<and> (\<exists>ys out es.
                    drain demo_ops demo_store it (self\<lparr>ds_client := Some demo_client\<rparr>)
                      [ClientCreated ''us-east-1''] =
                      (ys, out, self\<lparr>ds_client := Some demo_client\<rparr>,
                       [ClientCreated ''us-east-1''] @ ListObjectsCalled b p # es)
                  \<and> listed es = []))"
    by (elim exE conjE)
  from r [rule_format, OF parse] obtain it ys out es where
    i: "iter_ds [] self [] =
          (Inr it, self\<lparr>ds_client := Some demo_client\<rparr>, [ClientCreated ''us-east-1''])"
    and l: "\<forall>ks. list_objects demo_ops demo_client ''b'' ''data/'' demo_store = Inr ks \<longrightarrow>
                    it demo_store = Pulled [(''b'', ''data/'')] (map (S3BucketKey ''b'') ks) None"
    and d: "drain demo_ops demo_store it (self\<lparr>ds_client := Some demo_client\<rparr>)
                      [ClientCreated ''us-east-1''] =
                      (ys, out, self\<lparr>ds_client := Some demo_client\<rparr>,
                       [ClientCreated ''us-east-1''] @ ListObjectsCalled ''b'' ''data/'' # es)"
    and e: "listed es = []"
    by (elim exE conjE)
  from l [rule_format, OF ls]
  have p: "it demo_store = Pulled [(''b'', ''data/'')] [S3BucketKey ''b'' ''data/x''] None"
    by simp
  show ?thesis
    by (rule exI [where x = self], rule exI [where x = it], rule exI [where x = ys],
        rule exI [where x = out], rule exI [where x = es])
       (intro conjI a n i p d e)
qed


section \<open>Construction from a list of URIs\<close>

lemma parse_object_uri_error: "parse_object_uri uri = Inl e \<Longrightarrow> e = InvalidSpecification"
  by (auto simp: parse_object_uri_def split: option.splits prod.splits if_splits)

lemma parse_uris_malformed:
  "\<exists>uri\<in>set uris. parse_object_uri uri = Inl InvalidSpecification \<Longrightarrow>
   parse_uris uris = Inl InvalidSpecification"
proof (induction uris)
  case Nil
  then show ?case by simp
next
  case (Cons u us)
  show ?case
  proof (cases "parse_object_uri u")
    case (Inl e)
    then show ?thesis using parse_object_uri_error [OF Inl] by simp
  next
    case (Inr bk)
    with Cons.prems have "\<exists>uri\<in>set us. parse_object_uri uri = Inl InvalidSpecification"
      by auto
    from Cons.IH [OF this] Inr show ?thesis by simp
  qed
qed

text \<open>
  Claim C4, as stated: constructing the dataset with \<^verbatim>\<open>from_objects\<close> from a collection
  that holds a malformed URI raises an invalid-specification error at construction, never
  later.  The source does not parse at construction: \<^verbatim>\<open>from_objects\<close> stores a partial
  application of the helper and returns.  Below, the second URI has no key; the
  construction returns a dataset, and the error is raised by \<^verbatim>\<open>__iter__\<close>.
\<close>

theorem from_objects_counterexample:
  "parse_object_uri ''s3://b'' = Inl InvalidSpecification
   \<and> from_objects (Seq [''s3://b/a.bin'', ''s3://b'']) ''us-east-1'' None [] =
       (Inr malformed_dataset, [])
   \<and> fst (from_objects (Seq [''s3://b/a.bin'', ''s3://b'']) ''us-east-1'' None []) \<noteq>
       (Inl InvalidSpecification
          :: exn + (demo_state, string, (string, nat) item) S3IterableDataset)
   \<and> fst (iter_ds demo_store malformed_dataset []) = Inl InvalidSpecification"
  by (simp add: run_defs demo_defs)

text \<open>
  Claim C4, amended.  For every URI collection \<^verbatim>\<open>from_objects\<close> returns a dataset
  without parsing the URIs and without raising.  When the collection holds a malformed
  URI, the invalid-specification error is raised when iteration starts: by the call of
  \<^verbatim>\<open>__iter__\<close>, which builds the selector, after the client is created and before any
  object is fetched or any item emitted.
\<close>

theorem from_objects_defers_parsing:
  assumes "\<exists>uri\<in>set (uris_of object_uris (tr @ [ClientCreated rgn])).
             parse_object_uri uri = Inl InvalidSpecification"
  shows "\<exists>self self1 tr1. from_objects object_uris rgn transform tr = (Inr self, tr)
           \<and> ds_client self = None
           \<and> self1 = self\<lparr>ds_client := Some (S3Client (clients_created tr) rgn)\<rparr>
           \<and> tr1 = tr @ [ClientCreated rgn] @ map IteratorConsumed (consumed_by object_uris)
           \<and> iter_ds s self tr = (Inl InvalidSpecification, self1, tr1)
           \<and> iterate ops s self tr = ([], Raised InvalidSpecification, self1, tr1)"
proof -
  let ?self = "S3IterableDataset_init rgn (get_objects_from_uris object_uris)
                 (Some (case transform of None \<Rightarrow> identity | Some tf \<Rightarrow> tf))"
  let ?self1 = "?self\<lparr>ds_client := Some (S3Client (clients_created tr) rgn)\<rparr>"
  let ?tr1 = "tr @ [ClientCreated rgn] @ map IteratorConsumed (consumed_by object_uris)"
  have bad: "parse_uris (uris_of object_uris (tr @ [ClientCreated rgn])) = Inl InvalidSpecification"
    using assms by (rule parse_uris_malformed)
  have a: "from_objects object_uris rgn transform tr = (Inr ?self, tr)"
    by (simp add: from_objects_def)
  have n: "ds_client ?self = None" by (simp add: S3IterableDataset_init_def)
  have i: "iter_ds s ?self tr = (Inl InvalidSpecification, ?self1, ?tr1)"
    by (simp add: iter_ds_def get_client_def Let_def region_def S3IterableDataset_init_def
          get_objects_from_uris_def bad)
  have t: "iterate ops s ?self tr = ([], Raised InvalidSpecification, ?self1, ?tr1)"
    by (simp add: iterate_def i)
  show ?thesis
    by (rule exI [where x = ?self], rule exI [where x = ?self1], rule exI [where x = ?tr1])
       (intro conjI a n refl i t)
qed

theorem from_objects_defers_parsing_witness:
  "\<exists>self. from_objects (Seq [''s3://b/a.bin'', ''s3://b'']) ''us-east-1'' None [] = (Inr self, [])
     \<and> self = malformed_dataset
     \<and> ds_client self = None
     \<and> iter_ds demo_store self [] =
         (Inl InvalidSpecification, self\<lparr>ds_client := Some demo_client\<rparr>,
          [ClientCreated ''us-east-1''])
     \<and> iterate demo_ops demo_store self [] =
         ([], Raised InvalidSpecification, self\<lparr>ds_client := Some demo_client\<rparr>,
          [ClientCreated ''us-east-1''])"
proof -
  have h: "\<exists>uri\<in>set (uris_of (Seq [''s3://b/a.bin'', ''s3://b''])
                        ([] @ [ClientCreated ''us-east-1''])).
             parse_object_uri uri = Inl InvalidSpecification"
    by (simp add: parse_object_uri_def parse_s3_uri_def)
  have cl: "S3Client (clients_created []) ''us-east-1'' = demo_client"
    by (simp add: demo_client_def clients_created_Nil)
  have con: "from_objects (Seq [''s3://b/a.bin'', ''s3://b'']) ''us-east-1'' None [] =
               (Inr malformed_dataset, [])"
    by (simp add: demo_defs)
  from from_objects_defers_parsing
         [OF h, of "None :: (string \<Rightarrow> exn + (string, nat) item) option" demo_store demo_ops,
          unfolded cl]
  obtain self self1 tr1 where
    s: "from_objects (Seq [''s3://b/a.bin'', ''s3://b'']) ''us-east-1''
          (None :: (string \<Rightarrow> exn + (string, nat) item) option) [] = (Inr self, [])"
    and n: "ds_client self = None"
    and s1: "self1 = self\<lparr>ds_client := Some demo_client\<rparr>"
    and t1: "tr1 = [] @ [ClientCreated ''us-east-1'']
                   @ map IteratorConsumed (consumed_by (Seq [''s3://b/a.bin'', ''s3://b'']))"
    and i: "iter_ds demo_store self [] = (Inl InvalidSpecification, self1, tr1)"
    and t: "iterate demo_ops demo_store self [] = ([], Raised InvalidSpecification, self1, tr1)"
    by (elim exE conjE)
  from s con have e: "self = malformed_dataset" by simp
  from t1 have tr: "tr1 = [ClientCreated ''us-east-1'']" by simp
  show ?thesis
    by (rule exI [where x = self])
       (intro conjI con [unfolded e [symmetric]] e n i [unfolded s1 tr] t [unfolded s1 tr])
qed

end
